theory Spec2Isabelle
  imports Main
begin

section \<open>Symbolic fill-in count of a sparse Cholesky factorization\<close>

text \<open>
  The development follows \<^verbatim>\<open>apps/NDReorder/count_nnz_fillin.h\<close>. The symbolic routine is
  embedded twice. The operations \<open>visit\<close>, \<open>walk\<close>, \<open>scan_entry\<close>, \<open>process_row\<close>,
  \<open>rows_done\<close> and \<open>count_nnz_fillin\<close> keep the counters \<^verbatim>\<open>nnz\<close> and \<^verbatim>\<open>nonZerosPerCol\<close>
  as mathematical integers: this is the exact run, on which the invariants of the loops
  are proved. The operations \<open>visit_int32\<close>, \<open>walk_int32\<close>, \<open>\<dots>\<close>, \<open>count_nnz_fillin_int32\<close>
  are the routine with its counters and its result in the 32-bit C++ type \<^verbatim>\<open>int\<close>. The
  two runs fault on the same inputs and go through the same \<^verbatim>\<open>parent\<close> and \<^verbatim>\<open>tags\<close>
  arrays and the same stores (lemma \<open>rows_done_reduced\<close>); the 32-bit routine returns the
  exact result reduced to 32 bits (lemma \<open>count_nnz_fillin_int32_exact\<close>). On a valid
  pattern of dimension \<open>n\<close> the exact result is at most \<open>n\<^sup>2\<close> (lemma \<open>count_range\<close>), so the
  two results coincide for \<open>n \<le> 46340\<close> (lemma \<open>small_dimension_int32\<close>); from \<open>n = 46341\<close> on
  they differ on some valid patterns (section \<open>The returned value in 32 bits\<close>). The
  relation of the returned value to the marks, to the stored pattern and to the backend
  route is stated on \<open>count_nnz_fillin_int32\<close>; on the diagonal pattern, where \<^verbatim>\<open>nnz\<close> stays
  0, both runs return the dimension (lemma \<open>diagonal_count_int32\<close>).

  Reading an array outside its bounds is undefined behaviour in C++; here it is the
  explicit fault \<open>OutOfBounds\<close>.
\<close>

subsection \<open>Data\<close>

text \<open>
  \<^verbatim>\<open>rxmesh::SparseMatrix<T>\<close> as far as the routine looks at it: the dimension
  \<^verbatim>\<open>rows()\<close> and the two compressed-row index arrays \<^verbatim>\<open>row_ptr()\<close> and
  \<^verbatim>\<open>col_idx()\<close>.
\<close>

record sparse_matrix =
  rows :: nat
  row_ptr :: "int list"
  col_idx :: "int list"

datatype fault = OutOfBounds

text \<open>
  An event of the history: a store into \<open>parent\<close> (index and value written), or the
  marking of a node during a walk (node and row). The history is a ghost variable: no
  branch of the routine looks at it.
\<close>

datatype event = ParentStore nat int | Marked nat int

text \<open>The local variables of the routine.\<close>

record work =
  parent :: "int list"
  nonZerosPerCol :: "int list"
  tags :: "int list"
  nnz :: int
  history :: "event list"

subsection \<open>Operations\<close>

definition fetch :: "int list \<Rightarrow> int \<Rightarrow> fault + int" where
  "fetch xs i = (if 0 \<le> i \<and> i < int (length xs) then Inr (xs ! nat i) else Inl OutOfBounds)"

definition in_bounds :: "work \<Rightarrow> int \<Rightarrow> bool" where
  "in_bounds w c \<longleftrightarrow>
     0 \<le> c \<and> c < int (length (tags w)) \<and> c < int (length (parent w))
       \<and> c < int (length (nonZerosPerCol w))"

text \<open>
  The body of the innermost loop at node \<open>c\<close> in row \<open>r\<close>:
  \<^verbatim>\<open>if (parent[c] == -1) parent[c] = r; nonZerosPerCol[c]++; nnz++; tags[c] = r;\<close>
\<close>

definition set_parent :: "int \<Rightarrow> nat \<Rightarrow> work \<Rightarrow> work" where
  "set_parent r c w =
     (if parent w ! c = - 1
      then w\<lparr>parent := (parent w)[c := r], history := history w @ [ParentStore c r]\<rparr>
      else w)"

definition visit :: "int \<Rightarrow> nat \<Rightarrow> work \<Rightarrow> work" where
  "visit r c w =
     (let w1 = set_parent r c w
      in w1\<lparr>nonZerosPerCol := (nonZerosPerCol w1)[c := nonZerosPerCol w1 ! c + 1],
             nnz := nnz w1 + 1,
             tags := (tags w1)[c := r],
             history := history w1 @ [Marked c r]\<rparr>)"

text \<open>
  The innermost loop \<^verbatim>\<open>for (; tags[c] != r; c = parent[c]) { ... }\<close>, started at
  column \<open>c\<close>. Each round marks one more node with \<open>r\<close>, which bounds the number of rounds.
\<close>

function walk :: "int \<Rightarrow> int \<Rightarrow> work \<Rightarrow> fault + work" where
  "walk r c w =
     (if \<not> in_bounds w c then Inl OutOfBounds
      else if tags w ! nat c = r then Inr w
      else walk r (parent (visit r (nat c) w) ! nat c) (visit r (nat c) w))"
  by pat_completeness auto
termination
proof (relation "measure (\<lambda>(r, c, w). length (filter (\<lambda>t. t \<noteq> r) (tags w)))")
  show "wf (measure (\<lambda>(r, c, w). length (filter (\<lambda>t. t \<noteq> r) (tags w))))"
    by simp
next
  fix r c :: int and w :: work
  assume "\<not> \<not> in_bounds w c" and "tags w ! nat c \<noteq> r"
  then have c: "nat c < length (tags w)" "tags w ! nat c \<noteq> r"
    by (auto simp: in_bounds_def)
  have fewer: "length (filter (\<lambda>t. t \<noteq> r) (xs[i := r])) < length (filter (\<lambda>t. t \<noteq> r) xs)"
    if "i < length xs" and "xs ! i \<noteq> r" for xs :: "int list" and i
    using that
  proof (induction xs arbitrary: i)
    case Nil
    then show ?case by simp
  next
    case (Cons x xs)
    show ?case
    proof (cases i)
      case 0
      with Cons.prems show ?thesis by (simp add: le_imp_less_Suc)
    next
      case (Suc j)
      with Cons.prems have "j < length xs" and "xs ! j \<noteq> r" by simp_all
      from Cons.IH [OF this] Suc show ?thesis by simp
    qed
  qed
  have "tags (visit r (nat c) w) = (tags w)[nat c := r]"
    by (simp add: visit_def set_parent_def Let_def)
  with fewer [OF c]
  show "((r, parent (visit r (nat c) w) ! nat c, visit r (nat c) w), (r, c, w))
      \<in> measure (\<lambda>(r, c, w). length (filter (\<lambda>t. t \<noteq> r) (tags w)))"
    by simp
qed

declare walk.simps [simp del]

text \<open>A counted loop whose body may fault: the first fault ends it.\<close>

fun iterate :: "('a \<Rightarrow> 's \<Rightarrow> fault + 's) \<Rightarrow> 'a list \<Rightarrow> 's \<Rightarrow> fault + 's" where
  "iterate f [] s = Inr s"
| "iterate f (x # xs) s = (case f x s of Inl e \<Rightarrow> Inl e | Inr s' \<Rightarrow> iterate f xs s')"

text \<open>
  One round of \<^verbatim>\<open>for (int i = start; i < end; ++i)\<close>: read \<^verbatim>\<open>c = col_idx[i]\<close> and
  walk from \<open>c\<close> when \<^verbatim>\<open>c < r\<close>.
\<close>

definition scan_entry :: "sparse_matrix \<Rightarrow> int \<Rightarrow> int \<Rightarrow> work \<Rightarrow> fault + work" where
  "scan_entry mat r i w =
     (case fetch (col_idx mat) i of
        Inl e \<Rightarrow> Inl e
      | Inr c \<Rightarrow> if c < r then walk r c w else Inr w)"

text \<open>
  The first three statements of the outer loop body:
  \<^verbatim>\<open>parent[r] = -1; tags[r] = r; nonZerosPerCol[r] = 0;\<close>
\<close>

definition begin_row :: "nat \<Rightarrow> work \<Rightarrow> work" where
  "begin_row r w =
     w\<lparr>parent := (parent w)[r := - 1],
       tags := (tags w)[r := int r],
       nonZerosPerCol := (nonZerosPerCol w)[r := 0],
       history := history w @ [ParentStore r (- 1)]\<rparr>"

text \<open>The body of the outer loop for row \<open>r\<close>.\<close>

definition process_row :: "sparse_matrix \<Rightarrow> nat \<Rightarrow> work \<Rightarrow> fault + work" where
  "process_row mat r w =
     (let w1 = begin_row r w
      in case fetch (row_ptr mat) (int r) of
           Inl e \<Rightarrow> Inl e
         | Inr start \<Rightarrow>
             (case fetch (row_ptr mat) (int r + 1) of
                Inl e \<Rightarrow> Inl e
              | Inr end \<Rightarrow> iterate (scan_entry mat (int r)) [start..end - 1] w1))"

text \<open>
  The three \<^verbatim>\<open>std::vector<int>(size)\<close> start zero-filled, \<^verbatim>\<open>nnz\<close> starts at 0.
\<close>

definition initial :: "nat \<Rightarrow> work" where
  "initial n =
     \<lparr>parent = replicate n 0, nonZerosPerCol = replicate n 0,
      tags = replicate n 0, nnz = 0, history = []\<rparr>"

text \<open>The state after the first \<open>k\<close> rounds of the outer loop.\<close>

definition rows_done :: "sparse_matrix \<Rightarrow> nat \<Rightarrow> fault + work" where
  "rows_done mat k = iterate (process_row mat) [0..<k] (initial (rows mat))"

text \<open>
  \<^verbatim>\<open>count_nnz_fillin(const rxmesh::SparseMatrix<T>& mat)\<close>, with exact counters and an
  exact result; \<open>count_nnz_fillin_int32\<close> below is the routine with 32-bit counters.
\<close>

definition count_nnz_fillin :: "sparse_matrix \<Rightarrow> fault + int" where
  "count_nnz_fillin mat =
     (case rows_done mat (rows mat) of
        Inl e \<Rightarrow> Inl e
      | Inr w \<Rightarrow> Inr (2 * nnz w + int (rows mat)))"

subsection \<open>Well-formed input\<close>

text \<open>
  The compressed-row invariants: \<open>row_ptr\<close> has \<open>n + 1\<close> entries, is non-decreasing and
  delimits index ranges into \<open>col_idx\<close>; every entry of \<open>col_idx\<close> lies in \<open>[0, n)\<close>.
\<close>

definition valid_csr :: "sparse_matrix \<Rightarrow> bool" where
  "valid_csr mat \<longleftrightarrow>
     length (row_ptr mat) = rows mat + 1 \<and> sorted (row_ptr mat) \<and>
     0 \<le> row_ptr mat ! 0 \<and> row_ptr mat ! rows mat \<le> int (length (col_idx mat)) \<and>
     (\<forall>c \<in> set (col_idx mat). 0 \<le> c \<and> c < int (rows mat))"

subsection \<open>Loop invariants\<close>

text \<open>The three work arrays keep the length they were allocated with.\<close>

definition sized :: "nat \<Rightarrow> work \<Rightarrow> bool" where
  "sized n w \<longleftrightarrow>
     length (parent w) = n \<and> length (tags w) = n \<and> length (nonZerosPerCol w) = n"

text \<open>Below \<open>k\<close>, a parent pointer is unset or points strictly upwards, at most to \<open>hi\<close>.\<close>

definition climbing :: "nat \<Rightarrow> int \<Rightarrow> work \<Rightarrow> bool" where
  "climbing k hi w \<longleftrightarrow>
     (\<forall>v<k. parent w ! v = - 1 \<or> (int v < parent w ! v \<and> parent w ! v \<le> hi))"

text \<open>The invariant of the outer loop before row \<open>k\<close>.\<close>

definition between_rows :: "nat \<Rightarrow> nat \<Rightarrow> work \<Rightarrow> bool" where
  "between_rows n k w \<longleftrightarrow>
     sized n w \<and> (\<forall>v<k. tags w ! v < int k) \<and> climbing k (int k - 1) w"

text \<open>The invariant of the two inner loops while row \<open>r\<close> is processed.\<close>

definition within_row :: "nat \<Rightarrow> nat \<Rightarrow> work \<Rightarrow> bool" where
  "within_row n r w \<longleftrightarrow>
     sized n w \<and> r < n \<and> tags w ! r = int r \<and> (\<forall>v<r. tags w ! v \<le> int r)
       \<and> climbing (Suc r) (int r) w"


definition star4 :: sparse_matrix where
  "star4 = \<lparr>rows = 4, row_ptr = [0, 4, 6, 8, 10], col_idx = [0, 1, 2, 3, 0, 1, 0, 2, 0, 3]\<rparr>"


subsection \<open>Counting the marks\<close>

text \<open>The number of nodes marked during walks, read off the history.\<close>

fun is_mark :: "event \<Rightarrow> bool" where
  "is_mark (Marked c r) = True"
| "is_mark (ParentStore c x) = False"

definition marks :: "work \<Rightarrow> nat" where
  "marks w = length (filter is_mark (history w))"

text \<open>
  The counters agree: \<open>nnz\<close> is the number of marks and the sum of the per-column
  counters; the counters of rows not yet begun are still zero.
\<close>

definition tallied :: "nat \<Rightarrow> nat \<Rightarrow> work \<Rightarrow> bool" where
  "tallied n k w \<longleftrightarrow>
     nnz w = int (marks w) \<and> sum_list (nonZerosPerCol w) = nnz w \<and>
     (\<forall>v. k \<le> v \<and> v < n \<longrightarrow> nonZerosPerCol w ! v = 0)"

subsection \<open>The diagonal pattern\<close>

text \<open>The \<open>n \<times> n\<close> pattern whose stored entries are exactly the \<open>n\<close> diagonal ones.\<close>

definition diagonal_pattern :: "nat \<Rightarrow> sparse_matrix" where
  "diagonal_pattern n = \<lparr>rows = n, row_ptr = map int [0..<Suc n], col_idx = map int [0..<n]\<rparr>"

subsection \<open>The history of the elimination tree\<close>

text \<open>The values stored into \<open>parent[v]\<close>, oldest first.\<close>

fun store_at :: "nat \<Rightarrow> event \<Rightarrow> int list" where
  "store_at v (ParentStore u x) = (if u = v then [x] else [])"
| "store_at v (Marked c r) = []"

definition parent_stores :: "work \<Rightarrow> nat \<Rightarrow> int list" where
  "parent_stores w v = concat (map (store_at v) (history w))"

text \<open>The rows whose walks reached (and marked) node \<open>v\<close>, oldest first.\<close>

fun mark_at :: "nat \<Rightarrow> event \<Rightarrow> int list" where
  "mark_at v (Marked c r) = (if c = v then [r] else [])"
| "mark_at v (ParentStore u x) = []"

definition reached_in :: "work \<Rightarrow> nat \<Rightarrow> int list" where
  "reached_in w v = concat (map (mark_at v) (history w))"

text \<open>
  What the history says about node \<open>v\<close> once row \<open>v\<close> has begun: either \<open>parent[v]\<close> is
  still \<open>-1\<close>, the initialisation is the only store and no walk has reached \<open>v\<close>; or
  \<open>parent[v]\<close> was stored exactly once after the initialisation and holds the row of the
  first walk that reached \<open>v\<close>.
\<close>

definition settled :: "work \<Rightarrow> nat \<Rightarrow> bool" where
  "settled w v \<longleftrightarrow>
     (if parent w ! v = - 1
      then parent_stores w v = [- 1] \<and> reached_in w v = []
      else parent_stores w v = [- 1, parent w ! v] \<and> reached_in w v \<noteq> []
             \<and> hd (reached_in w v) = parent w ! v)"

definition untouched :: "work \<Rightarrow> nat \<Rightarrow> bool" where
  "untouched w v \<longleftrightarrow> parent_stores w v = [] \<and> reached_in w v = []"

definition recorded :: "nat \<Rightarrow> nat \<Rightarrow> work \<Rightarrow> bool" where
  "recorded n k w \<longleftrightarrow> (\<forall>v<n. if v < k then settled w v else untouched w v)"

subsection \<open>The stored pattern\<close>

text \<open>The columns stored in row \<open>r\<close>, in storage order, and all stored positions.\<close>

definition row_cols :: "sparse_matrix \<Rightarrow> nat \<Rightarrow> nat list" where
  "row_cols mat r =
     map (\<lambda>i. nat (col_idx mat ! nat i)) [row_ptr mat ! r..row_ptr mat ! Suc r - 1]"

definition entries :: "sparse_matrix \<Rightarrow> (nat \<times> nat) list" where
  "entries mat = concat (map (\<lambda>r. map (Pair r) (row_cols mat r)) [0..<rows mat])"

text \<open>Structural symmetry: with \<open>(r, c)\<close> also \<open>(c, r)\<close> is stored.\<close>

definition structurally_symmetric :: "sparse_matrix \<Rightarrow> bool" where
  "structurally_symmetric mat \<longleftrightarrow>
     (\<forall>(r, c) \<in> set (entries mat). (c, r) \<in> set (entries mat))"

text \<open>The number of structurally nonzero positions, both triangles and the diagonal.\<close>

definition structural_nonzeros :: "sparse_matrix \<Rightarrow> nat" where
  "structural_nonzeros mat = card (set (entries mat))"

text \<open>The stored positions strictly below the diagonal in the rows before \<open>k\<close>.\<close>

definition lower_before :: "sparse_matrix \<Rightarrow> nat \<Rightarrow> (nat \<times> nat) set" where
  "lower_before mat k = {(r, c). r < k \<and> c < r \<and> c \<in> set (row_cols mat r)}"

text \<open>The nodes below \<open>r\<close> that carry the mark of row \<open>r\<close>.\<close>

definition marked_below :: "nat \<Rightarrow> work \<Rightarrow> nat set" where
  "marked_below r w = {v. v < r \<and> tags w ! v = int r}"

subsection \<open>What a row does to the state\<close>

text \<open>
  The nodes on the path from \<open>c\<close> towards the root in the forest \<open>F\<close> of parent pointers.
\<close>

inductive_set path_up :: "int list \<Rightarrow> nat \<Rightarrow> nat set" for F :: "int list" and c :: nat where
  start: "c \<in> path_up F c"
| climb: "v \<in> path_up F c \<Longrightarrow> F ! v \<noteq> - 1 \<Longrightarrow> nat (F ! v) \<in> path_up F c"

text \<open>
  The state \<open>w\<close> is the state \<open>w0\<close> at the beginning of row \<open>r\<close> with exactly the nodes of
  \<open>M\<close> visited: they carry the mark \<open>r\<close>, their counters are one higher, and those that had
  no parent have parent \<open>r\<close>.
\<close>

definition stamped :: "work \<Rightarrow> nat \<Rightarrow> nat set \<Rightarrow> work \<Rightarrow> bool" where
  "stamped w0 r M w \<longleftrightarrow>
     length (parent w) = length (parent w0) \<and> length (tags w) = length (tags w0) \<and>
     length (nonZerosPerCol w) = length (nonZerosPerCol w0) \<and>
     (\<forall>v<length (parent w0).
        parent w ! v = (if v \<in> M \<and> parent w0 ! v = - 1 then int r else parent w0 ! v)) \<and>
     (\<forall>v<length (tags w0). tags w ! v = (if v \<in> M then int r else tags w0 ! v)) \<and>
     (\<forall>v<length (nonZerosPerCol w0).
        nonZerosPerCol w ! v = nonZerosPerCol w0 ! v + (if v \<in> M then 1 else 0)) \<and>
     nnz w = nnz w0 + int (card M)"

text \<open>Above \<open>c\<close>, the set \<open>M\<close> contains with a node its whole path.\<close>

definition closed_from :: "int list \<Rightarrow> nat \<Rightarrow> nat set \<Rightarrow> bool" where
  "closed_from F c M \<longleftrightarrow> (\<forall>v\<in>M. c \<le> v \<longrightarrow> path_up F v \<subseteq> M)"

text \<open>The state at the beginning of row \<open>r\<close>, after its first three statements.\<close>

definition row_start :: "nat \<Rightarrow> nat \<Rightarrow> work \<Rightarrow> bool" where
  "row_start n r w0 \<longleftrightarrow>
     sized n w0 \<and> r < n \<and> tags w0 ! r = int r \<and> (\<forall>v<r. tags w0 ! v < int r) \<and>
     (\<forall>v<r. parent w0 ! v = - 1 \<or> (int v < parent w0 ! v \<and> parent w0 ! v < int r))"

text \<open>The columns below the diagonal that row \<open>r\<close> stores.\<close>

definition lower_cols :: "sparse_matrix \<Rightarrow> nat \<Rightarrow> nat set" where
  "lower_cols mat r = {c \<in> set (row_cols mat r). c < r}"


section \<open>The route through the factorization backend\<close>

subsection \<open>The backend as the routine sees it\<close>

text \<open>\<^verbatim>\<open>Eigen::ComputationInfo\<close>, the status that \<^verbatim>\<open>solver.info()\<close> reports.\<close>

datatype ComputationInfo = Success | NumericalIssue | NoConvergence | InvalidInput

text \<open>
  The input matrix of type \<^verbatim>\<open>EigeMatT\<close>, as far as its structure goes: the dimension
  \<^verbatim>\<open>rows()\<close> and the stored positions \<open>(row, column)\<close>.
\<close>

record eigen_matrix =
  e_rows :: nat
  e_entries :: "(nat \<times> nat) list"

text \<open>
  The solver after \<^verbatim>\<open>analyzePattern\<close> and \<^verbatim>\<open>compute\<close>: its status and the
  number of stored entries of its factor, \<^verbatim>\<open>matrixL().nestedExpression().nonZeros()\<close>.
\<close>

record solver =
  info :: ComputationInfo
  matrixL_nonZeros :: nat

text \<open>
  The two library calls of the routine, taken as parameters:
  \<^verbatim>\<open>Eigen::internal::permute_symm_to_fullsymm<Eigen::Lower, false>\<close>, from the input
  matrix and the permutation indices to the permuted matrix, and
  \<^verbatim>\<open>Eigen::SimplicialLLT<..., Eigen::Lower, Eigen::NaturalOrdering<int>>\<close>, from the
  permuted matrix to the solver state.
\<close>

record backend =
  permute_symm_to_fullsymm :: "eigen_matrix \<Rightarrow> nat list \<Rightarrow> sparse_matrix"
  simplicial_llt :: "sparse_matrix \<Rightarrow> solver"

text \<open>A message passed to \<^verbatim>\<open>RXMESH_ERROR\<close>, with the status code it carries.\<close>

datatype diagnostic = Error string ComputationInfo

datatype abort = AssertionFailed

text \<open>
  \<^verbatim>\<open>count_nnz_fillin(const EigeMatT& eigen_mat, std::vector<I>& h_permute, std::string st)\<close>:
  the returned \<^verbatim>\<open>int\<close> and the diagnostics emitted. A failing
  \<^verbatim>\<open>assert(h_permute.size() == eigen_mat.rows())\<close> is the outcome \<open>AssertionFailed\<close>;
  the loop that copies \<open>h_permute\<close> into \<open>perm.indices()\<close> is the \<open>map\<close>; the parameter
  \<open>st\<close> is not used by the routine.
\<close>

definition count_nnz_fillin_eigen ::
    "backend \<Rightarrow> eigen_matrix \<Rightarrow> nat list \<Rightarrow> abort + int \<times> diagnostic list" where
  "count_nnz_fillin_eigen lib eigen_mat h_permute =
     (if length h_permute \<noteq> e_rows eigen_mat then Inl AssertionFailed
      else
        let perm = map (\<lambda>i. h_permute ! i) [0..<e_rows eigen_mat];
            permuted_mat = permute_symm_to_fullsymm lib eigen_mat perm;
            solver = simplicial_llt lib permuted_mat
        in if info solver \<noteq> Success
           then Inr (- 1,
                  [Error ''post_chol_factorization_nnz(): Cholesky decomposition with reorder failed with code {}''
                     (info solver)])
           else Inr (int (matrixL_nonZeros solver), []))"

text \<open>The solver state that the routine obtains.\<close>

definition solver_of :: "backend \<Rightarrow> eigen_matrix \<Rightarrow> nat list \<Rightarrow> solver" where
  "solver_of lib eigen_mat h_permute =
     simplicial_llt lib
       (permute_symm_to_fullsymm lib eigen_mat (map (\<lambda>i. h_permute ! i) [0..<e_rows eigen_mat]))"

text \<open>Two backends that differ at most in the factor data they hold.\<close>

definition same_but_factor :: "backend \<Rightarrow> backend \<Rightarrow> bool" where
  "same_but_factor lib lib' \<longleftrightarrow>
     permute_symm_to_fullsymm lib' = permute_symm_to_fullsymm lib \<and>
     (\<forall>m. info (simplicial_llt lib' m) = info (simplicial_llt lib m))"

subsection \<open>A model of the backend\<close>

text \<open>
  Modelled from the spec: the Pattern Extractor / Permutation Applier
  (\<^verbatim>\<open>Eigen::internal::permute_symm_to_fullsymm<Eigen::Lower, false>\<close>, library code that
  is not part of the sources). Every stored entry \<open>(i, j)\<close> of the lower triangle and the
  diagonal is mapped by applying the permutation to both indices, and the fully symmetric
  (both-triangle) pattern is reconstructed. The index convention is the one of the
  routine, which hands \<open>h_permute\<close> over as the permutation indices: original index \<open>i\<close>
  moves to \<open>perm[i]\<close>.
\<close>

fun mirrored :: "nat list \<Rightarrow> nat \<times> nat \<Rightarrow> (nat \<times> nat) list" where
  "mirrored perm (i, j) =
     (if i = j then [(perm ! i, perm ! i)]
      else if j < i then [(perm ! i, perm ! j), (perm ! j, perm ! i)]
      else [])"

text \<open>
  Modelled from the spec: the positions of the permuted matrix that the Permutation
  Applier produces, read off the stored entries of the input one by one.
\<close>

definition permuted_entries :: "eigen_matrix \<Rightarrow> nat list \<Rightarrow> (nat \<times> nat) list" where
  "permuted_entries A perm = concat (map (mirrored perm) (e_entries A))"

text \<open>
  Modelled from the spec: the compressed-row structure of a pattern of dimension \<open>n\<close>
  given by its positions (the output format of the Permutation Applier, whose code is not
  part of the sources): row \<open>r\<close> occupies the index range \<open>[row_ptr[r], row_ptr[r+1])\<close> of
  \<open>col_idx\<close>, columns sorted, each position stored once.
\<close>

definition compress :: "nat \<Rightarrow> (nat \<times> nat) list \<Rightarrow> sparse_matrix" where
  "compress n es =
     (let rws = map (\<lambda>r. filter (\<lambda>c. (r, c) \<in> set es) [0..<n]) [0..<n]
      in \<lparr>rows = n,
          row_ptr = map (\<lambda>k. int (length (concat (take k rws)))) [0..<Suc n],
          col_idx = map int (concat rws)\<rparr>)"

text \<open>
  Modelled from the spec: the nonzero count of the factor \<open>L\<close> that the Factorization
  Backend reports (\<^verbatim>\<open>Eigen::SimplicialLLT\<close>, library code that is not part of the
  sources). By section 4.2 of the spec, \<open>L(r, c)\<close> with \<open>c < r\<close> is structurally nonzero
  exactly for the nodes \<open>c\<close> marked in the walks of row \<open>r\<close> of the elimination-tree pass
  over the permuted pattern, and \<open>L\<close> has one diagonal entry per row; the routine's own
  comment reads the same count off the factor (its nonzeros minus its rows are the
  strictly lower ones).
\<close>

definition factor_nonZeros :: "sparse_matrix \<Rightarrow> nat" where
  "factor_nonZeros m =
     (case rows_done m (rows m) of Inl e \<Rightarrow> 0 | Inr w \<Rightarrow> marks w + rows m)"

text \<open>
  Modelled from the spec: the Factorization Backend as a whole. Whether the numeric
  factorization succeeds depends on the matrix values, which the model does not hold:
  the status is the parameter \<open>numeric\<close>, a function of the permuted matrix.
\<close>

definition modelled_backend :: "(sparse_matrix \<Rightarrow> ComputationInfo) \<Rightarrow> backend" where
  "modelled_backend numeric =
     \<lparr>permute_symm_to_fullsymm = (\<lambda>A perm. compress (e_rows A) (permuted_entries A perm)),
      simplicial_llt = (\<lambda>m. \<lparr>info = numeric m, matrixL_nonZeros = factor_nonZeros m\<rparr>)\<rparr>"

text \<open>A symmetric pattern of dimension \<open>n\<close> given by its positions.\<close>

definition symmetric_pattern :: "nat \<Rightarrow> (nat \<times> nat) list \<Rightarrow> bool" where
  "symmetric_pattern n es \<longleftrightarrow>
     (\<forall>(i, j) \<in> set es. i < n \<and> j < n \<and> (j, i) \<in> set es)"

text \<open>The positions of the 4-node star and of the 4-node path, with diagonal.\<close>

definition star_entries :: "(nat \<times> nat) list" where
  "star_entries = [(0, 0), (0, 1), (0, 2), (0, 3), (1, 0), (1, 1), (2, 0), (2, 2), (3, 0), (3, 3)]"

definition path_entries :: "(nat \<times> nat) list" where
  "path_entries = [(0, 0), (1, 1), (2, 2), (3, 3), (0, 1), (1, 0), (1, 2), (2, 1), (2, 3), (3, 2)]"

text \<open>A backend whose numeric factorization succeeds on every matrix.\<close>

definition always_succeeds :: "sparse_matrix \<Rightarrow> ComputationInfo" where
  "always_succeeds m = Success"

definition always_fails :: "sparse_matrix \<Rightarrow> ComputationInfo" where
  "always_fails m = NumericalIssue"

text \<open>The input matrix with the given positions.\<close>

definition eigen_pattern :: "nat \<Rightarrow> (nat \<times> nat) list \<Rightarrow> eigen_matrix" where
  "eigen_pattern n es = \<lparr>e_rows = n, e_entries = es\<rparr>"

subsection \<open>Permutations\<close>

text \<open>An ordered sequence of length \<open>n\<close> that contains each of \<open>0..n-1\<close> exactly once.\<close>

definition is_permutation :: "nat \<Rightarrow> nat list \<Rightarrow> bool" where
  "is_permutation n p \<longleftrightarrow> distinct p \<and> set p = {0..<n}"

fun index_of :: "nat list \<Rightarrow> nat \<Rightarrow> nat" where
  "index_of [] x = 0"
| "index_of (y # ys) x = (if y = x then 0 else Suc (index_of ys x))"

definition inverse_permutation :: "nat list \<Rightarrow> nat list" where
  "inverse_permutation p = map (index_of p) [0..<length p]"

text \<open>Applying a permutation to a pattern: position \<open>(i, j)\<close> moves to \<open>(p[i], p[j])\<close>.\<close>

definition relabel :: "nat list \<Rightarrow> (nat \<times> nat) list \<Rightarrow> (nat \<times> nat) list" where
  "relabel p es = map (\<lambda>(i, j). (p ! i, p ! j)) es"

section \<open>The routines on the caller's memory\<close>

text \<open>
  Both routines receive their arguments by reference. To speak about what a call leaves
  behind, the symbolic routine is written once more over a store that holds the arrays of
  the matrix next to the three arrays the call allocates, every assignment being a store
  into a named array, and the backend routine over a scope record that holds the caller's
  matrix and permutation vector next to the locals.
\<close>

datatype array = RowPtr | ColIdx | Parent | NonZerosPerCol | Tags

record memory =
  cells :: "array \<Rightarrow> int list"
  nnz_cell :: int

definition poke :: "array \<Rightarrow> nat \<Rightarrow> int \<Rightarrow> memory \<Rightarrow> memory" where
  "poke a i v s = s\<lparr>cells := (cells s)(a := (cells s a)[i := v])\<rparr>"

definition in_bounds_mem :: "memory \<Rightarrow> int \<Rightarrow> bool" where
  "in_bounds_mem s c \<longleftrightarrow>
     0 \<le> c \<and> c < int (length (cells s Tags)) \<and> c < int (length (cells s Parent))
       \<and> c < int (length (cells s NonZerosPerCol))"

text \<open>
  \<^verbatim>\<open>if (parent[c] == -1) parent[c] = r; nonZerosPerCol[c]++; nnz++; tags[c] = r;\<close>
\<close>

definition visit_mem :: "int \<Rightarrow> nat \<Rightarrow> memory \<Rightarrow> memory" where
  "visit_mem r c s =
     (let s1 = (if cells s Parent ! c = - 1 then poke Parent c r s else s);
          s2 = poke NonZerosPerCol c (cells s1 NonZerosPerCol ! c + 1) s1;
          s3 = s2\<lparr>nnz_cell := nnz_cell s2 + 1\<rparr>
      in poke Tags c r s3)"

text \<open>\<^verbatim>\<open>for (; tags[c] != r; c = parent[c]) { ... }\<close>\<close>

function walk_mem :: "int \<Rightarrow> int \<Rightarrow> memory \<Rightarrow> fault + memory" where
  "walk_mem r c s =
     (if \<not> in_bounds_mem s c then Inl OutOfBounds
      else if cells s Tags ! nat c = r then Inr s
      else walk_mem r (cells (visit_mem r (nat c) s) Parent ! nat c) (visit_mem r (nat c) s))"
  by pat_completeness auto
termination
proof (relation "measure (\<lambda>(r, c, s). length (filter (\<lambda>t. t \<noteq> r) (cells s Tags)))")
  show "wf (measure (\<lambda>(r, c, s). length (filter (\<lambda>t. t \<noteq> r) (cells s Tags))))"
    by simp
next
  fix r c :: int and s :: memory
  assume "\<not> \<not> in_bounds_mem s c" and "cells s Tags ! nat c \<noteq> r"
  then have c: "nat c < length (cells s Tags)" "cells s Tags ! nat c \<noteq> r"
    by (auto simp: in_bounds_mem_def)
  have fewer: "length (filter (\<lambda>t. t \<noteq> r) (xs[i := r])) < length (filter (\<lambda>t. t \<noteq> r) xs)"
    if "i < length xs" and "xs ! i \<noteq> r" for xs :: "int list" and i
    using that
  proof (induction xs arbitrary: i)
    case Nil
    then show ?case by simp
  next
    case (Cons x xs)
    show ?case
    proof (cases i)
      case 0
      with Cons.prems show ?thesis by (simp add: le_imp_less_Suc)
    next
      case (Suc j)
      with Cons.prems have "j < length xs" and "xs ! j \<noteq> r" by simp_all
      from Cons.IH [OF this] Suc show ?thesis by simp
    qed
  qed
  have "cells (visit_mem r (nat c) s) Tags = (cells s Tags)[nat c := r]"
    by (simp add: visit_mem_def poke_def Let_def)
  with fewer [OF c]
  show "((r, cells (visit_mem r (nat c) s) Parent ! nat c, visit_mem r (nat c) s), (r, c, s))
      \<in> measure (\<lambda>(r, c, s). length (filter (\<lambda>t. t \<noteq> r) (cells s Tags)))"
    by simp
qed

declare walk_mem.simps [simp del]

text \<open>\<^verbatim>\<open>int c = mat.col_idx()[i]; if (c < r) { ... }\<close>\<close>

definition scan_entry_mem :: "int \<Rightarrow> int \<Rightarrow> memory \<Rightarrow> fault + memory" where
  "scan_entry_mem r i s =
     (case fetch (cells s ColIdx) i of
        Inl e \<Rightarrow> Inl e
      | Inr c \<Rightarrow> if c < r then walk_mem r c s else Inr s)"

text \<open>\<^verbatim>\<open>parent[r] = -1; tags[r] = r; nonZerosPerCol[r] = 0;\<close>\<close>

definition begin_row_mem :: "nat \<Rightarrow> memory \<Rightarrow> memory" where
  "begin_row_mem r s = poke NonZerosPerCol r 0 (poke Tags r (int r) (poke Parent r (- 1) s))"

definition process_row_mem :: "nat \<Rightarrow> memory \<Rightarrow> fault + memory" where
  "process_row_mem r s =
     (let s1 = begin_row_mem r s
      in case fetch (cells s1 RowPtr) (int r) of
           Inl e \<Rightarrow> Inl e
         | Inr start \<Rightarrow>
             (case fetch (cells s1 RowPtr) (int r + 1) of
                Inl e \<Rightarrow> Inl e
              | Inr end \<Rightarrow> iterate (scan_entry_mem (int r)) [start..end - 1] s1))"

text \<open>The three vectors are allocated zero-filled and \<^verbatim>\<open>nnz\<close> is set to 0.\<close>

definition allocate :: "nat \<Rightarrow> memory \<Rightarrow> memory" where
  "allocate n s =
     s\<lparr>cells := (cells s)(Parent := replicate n 0, NonZerosPerCol := replicate n 0,
                            Tags := replicate n 0),
       nnz_cell := 0\<rparr>"

text \<open>
  The call on a store whose \<open>RowPtr\<close> and \<open>ColIdx\<close> hold the matrix of dimension \<open>n\<close>: the
  returned value and the store when the call returns.
\<close>

definition count_nnz_fillin_mem :: "nat \<Rightarrow> memory \<Rightarrow> fault + int \<times> memory" where
  "count_nnz_fillin_mem n s =
     (case iterate process_row_mem [0..<n] (allocate n s) of
        Inl e \<Rightarrow> Inl e
      | Inr s' \<Rightarrow> Inr (2 * nnz_cell s' + int n, s'))"

text \<open>The matrix that a store holds.\<close>

definition matrix_in :: "nat \<Rightarrow> memory \<Rightarrow> sparse_matrix" where
  "matrix_in n s = \<lparr>rows = n, row_ptr = cells s RowPtr, col_idx = cells s ColIdx\<rparr>"

text \<open>The local arrays of a store and a state of the routine agree.\<close>

definition agrees :: "memory \<Rightarrow> work \<Rightarrow> bool" where
  "agrees s w \<longleftrightarrow>
     cells s Parent = parent w \<and> cells s NonZerosPerCol = nonZerosPerCol w \<and>
     cells s Tags = tags w \<and> nnz_cell s = nnz w"

text \<open>Two stores hold the same matrix arrays.\<close>

definition same_matrix :: "memory \<Rightarrow> memory \<Rightarrow> bool" where
  "same_matrix s s' \<longleftrightarrow> cells s' RowPtr = cells s RowPtr \<and> cells s' ColIdx = cells s ColIdx"

text \<open>
  Two outcomes correspond: the same fault, or a store and a state that agree, the store
  still holding the matrix arrays of \<open>s0\<close>.
\<close>

fun corresponds :: "memory \<Rightarrow> fault + memory \<Rightarrow> fault + work \<Rightarrow> bool" where
  "corresponds s0 (Inl e) (Inl e') \<longleftrightarrow> e = e'"
| "corresponds s0 (Inr s) (Inr w) \<longleftrightarrow> agrees s w \<and> same_matrix s0 s"
| "corresponds s0 (Inl e) (Inr w) \<longleftrightarrow> False"
| "corresponds s0 (Inr s) (Inl e) \<longleftrightarrow> False"

text \<open>
  The scope of a call of the backend routine: the caller's matrix and permutation vector
  (both passed by reference) and the locals \<^verbatim>\<open>perm\<close>, \<^verbatim>\<open>permuted_mat\<close> and
  \<^verbatim>\<open>solver\<close>; a local is \<open>None\<close> until it is constructed.
\<close>

record scope =
  eigen_mat_ref :: eigen_matrix
  h_permute_ref :: "nat list"
  perm_local :: "nat list option"
  permuted_mat_local :: "sparse_matrix option"
  solver_local :: "solver option"

text \<open>
  The backend routine on a scope. The library calls take their matrix and index arguments
  as \<^verbatim>\<open>const\<close> and fill the locals; the result and the scope at the return.
\<close>

definition count_nnz_fillin_eigen_scope ::
    "backend \<Rightarrow> scope \<Rightarrow> abort + (int \<times> diagnostic list) \<times> scope" where
  "count_nnz_fillin_eigen_scope lib sc =
     (if length (h_permute_ref sc) \<noteq> e_rows (eigen_mat_ref sc) then Inl AssertionFailed
      else
        let perm = map (\<lambda>i. h_permute_ref sc ! i) [0..<e_rows (eigen_mat_ref sc)];
            sc1 = sc\<lparr>perm_local := Some perm\<rparr>;
            permuted_mat = permute_symm_to_fullsymm lib (eigen_mat_ref sc1) perm;
            sc2 = sc1\<lparr>permuted_mat_local := Some permuted_mat\<rparr>;
            solver = simplicial_llt lib permuted_mat;
            sc3 = sc2\<lparr>solver_local := Some solver\<rparr>
        in if info solver \<noteq> Success
           then Inr ((- 1,
                  [Error ''post_chol_factorization_nnz(): Cholesky decomposition with reorder failed with code {}''
                     (info solver)]), sc3)
           else Inr ((int (matrixL_nonZeros solver), []), sc3))"

text \<open>A store that holds the 4-node star, and a scope with the star and the reversal.\<close>

definition star_memory :: memory where
  "star_memory =
     \<lparr>cells = (\<lambda>a. []) (RowPtr := row_ptr star4, ColIdx := col_idx star4), nnz_cell = 0\<rparr>"

definition star_scope :: scope where
  "star_scope =
     \<lparr>eigen_mat_ref = eigen_pattern 4 star_entries, h_permute_ref = [3, 2, 1, 0],
      perm_local = None, permuted_mat_local = None, solver_local = None\<rparr>"

section \<open>The counters as 32-bit integers\<close>

text \<open>
  The routine keeps \<open>nnz\<close> and the per-column counters in the C++ type \<^verbatim>\<open>int\<close> and
  computes its result \<^verbatim>\<open>2 * nnz + mat.rows()\<close> in that type. \<open>int32\<close> is the value a
  32-bit two's-complement \<^verbatim>\<open>int\<close> holds after an operation whose exact result is \<open>x\<close>
  (the exact result itself when it lies between \<open>-2\<^sup>3\<^sup>1\<close> and \<open>2\<^sup>3\<^sup>1 - 1\<close>, wrapped around
  otherwise). Overflow of a signed \<^verbatim>\<open>int\<close> is undefined behaviour in C++; compiled for a
  two's-complement machine the operations wrap around, and that is the value taken here.
\<close>

definition int32 :: "int \<Rightarrow> int" where
  "int32 x = (x + 2 ^ 31) mod 2 ^ 32 - 2 ^ 31"

text \<open>
  The body of the innermost loop, with the increments \<^verbatim>\<open>nonZerosPerCol[c]++\<close> and
  \<^verbatim>\<open>nnz++\<close> in 32-bit arithmetic.
\<close>

definition visit_int32 :: "int \<Rightarrow> nat \<Rightarrow> work \<Rightarrow> work" where
  "visit_int32 r c w =
     (let w1 = set_parent r c w
      in w1\<lparr>nonZerosPerCol := (nonZerosPerCol w1)[c := int32 (nonZerosPerCol w1 ! c + 1)],
             nnz := int32 (nnz w1 + 1),
             tags := (tags w1)[c := r],
             history := history w1 @ [Marked c r]\<rparr>)"

text \<open>\<^verbatim>\<open>for (; tags[c] != r; c = parent[c]) { ... }\<close>\<close>

function walk_int32 :: "int \<Rightarrow> int \<Rightarrow> work \<Rightarrow> fault + work" where
  "walk_int32 r c w =
     (if \<not> in_bounds w c then Inl OutOfBounds
      else if tags w ! nat c = r then Inr w
      else walk_int32 r (parent (visit_int32 r (nat c) w) ! nat c) (visit_int32 r (nat c) w))"
  by pat_completeness auto
termination
proof (relation "measure (\<lambda>(r, c, w). length (filter (\<lambda>t. t \<noteq> r) (tags w)))")
  show "wf (measure (\<lambda>(r, c, w). length (filter (\<lambda>t. t \<noteq> r) (tags w))))"
    by simp
next
  fix r c :: int and w :: work
  assume "\<not> \<not> in_bounds w c" and "tags w ! nat c \<noteq> r"
  then have c: "nat c < length (tags w)" "tags w ! nat c \<noteq> r"
    by (auto simp: in_bounds_def)
  have fewer: "length (filter (\<lambda>t. t \<noteq> r) (xs[i := r])) < length (filter (\<lambda>t. t \<noteq> r) xs)"
    if "i < length xs" and "xs ! i \<noteq> r" for xs :: "int list" and i
    using that
  proof (induction xs arbitrary: i)
    case Nil
    then show ?case by simp
  next
    case (Cons x xs)
    show ?case
    proof (cases i)
      case 0
      with Cons.prems show ?thesis by (simp add: le_imp_less_Suc)
    next
      case (Suc j)
      with Cons.prems have "j < length xs" and "xs ! j \<noteq> r" by simp_all
      from Cons.IH [OF this] Suc show ?thesis by simp
    qed
  qed
  have "tags (visit_int32 r (nat c) w) = (tags w)[nat c := r]"
    by (simp add: visit_int32_def set_parent_def Let_def)
  with fewer [OF c]
  show "((r, parent (visit_int32 r (nat c) w) ! nat c, visit_int32 r (nat c) w), (r, c, w))
      \<in> measure (\<lambda>(r, c, w). length (filter (\<lambda>t. t \<noteq> r) (tags w)))"
    by simp
qed

declare walk_int32.simps [simp del]

text \<open>\<^verbatim>\<open>int c = mat.col_idx()[i]; if (c < r) { ... }\<close>\<close>

definition scan_entry_int32 :: "sparse_matrix \<Rightarrow> int \<Rightarrow> int \<Rightarrow> work \<Rightarrow> fault + work" where
  "scan_entry_int32 mat r i w =
     (case fetch (col_idx mat) i of
        Inl e \<Rightarrow> Inl e
      | Inr c \<Rightarrow> if c < r then walk_int32 r c w else Inr w)"

text \<open>The body of the outer loop for row \<open>r\<close>.\<close>

definition process_row_int32 :: "sparse_matrix \<Rightarrow> nat \<Rightarrow> work \<Rightarrow> fault + work" where
  "process_row_int32 mat r w =
     (let w1 = begin_row r w
      in case fetch (row_ptr mat) (int r) of
           Inl e \<Rightarrow> Inl e
         | Inr start \<Rightarrow>
             (case fetch (row_ptr mat) (int r + 1) of
                Inl e \<Rightarrow> Inl e
              | Inr end \<Rightarrow> iterate (scan_entry_int32 mat (int r)) [start..end - 1] w1))"

definition rows_done_int32 :: "sparse_matrix \<Rightarrow> nat \<Rightarrow> fault + work" where
  "rows_done_int32 mat k = iterate (process_row_int32 mat) [0..<k] (initial (rows mat))"

text \<open>
  \<^verbatim>\<open>count_nnz_fillin(const rxmesh::SparseMatrix<T>& mat)\<close> as the machine runs it: the
  product and the sum of \<^verbatim>\<open>return 2 * nnz + mat.rows();\<close> are 32-bit operations.
\<close>

definition count_nnz_fillin_int32 :: "sparse_matrix \<Rightarrow> fault + int" where
  "count_nnz_fillin_int32 mat =
     (case rows_done_int32 mat (rows mat) of
        Inl e \<Rightarrow> Inl e
      | Inr w \<Rightarrow> Inr (int32 (int32 (2 * nnz w) + int (rows mat))))"

text \<open>
  A state with 32-bit counters against the state with exact counters: the same arrays of
  indices and the same history, the counters reduced to 32 bits.
\<close>

definition reduced :: "work \<Rightarrow> work \<Rightarrow> bool" where
  "reduced w v \<longleftrightarrow>
     parent v = parent w \<and> tags v = tags w \<and> history v = history w \<and>
     nnz v = int32 (nnz w) \<and> nonZerosPerCol v = map int32 (nonZerosPerCol w)"

fun reduced_outcome :: "fault + work \<Rightarrow> fault + work \<Rightarrow> bool" where
  "reduced_outcome (Inl e) (Inl e') \<longleftrightarrow> e = e'"
| "reduced_outcome (Inr w) (Inr v) \<longleftrightarrow> reduced w v"
| "reduced_outcome (Inl e) (Inr v) \<longleftrightarrow> False"
| "reduced_outcome (Inr w) (Inl e) \<longleftrightarrow> False"

subsection \<open>The star pattern\<close>

text \<open>
  The star of dimension \<open>n\<close>: node 0 is joined to every other node, and every diagonal
  position is stored. In compressed-row form, row 0 stores the columns \<open>0, \<dots>, n - 1\<close> and
  row \<open>r \<ge> 1\<close> stores the columns \<open>0\<close> and \<open>r\<close>; for \<open>n = 4\<close> this is \<open>star4\<close>.
\<close>

definition star_positions :: "nat \<Rightarrow> (nat \<times> nat) list" where
  "star_positions n = map (Pair 0) [0..<n] @ concat (map (\<lambda>r. [(r, 0), (r, r)]) [1..<n])"

definition star_pattern :: "nat \<Rightarrow> sparse_matrix" where
  "star_pattern n = compress n (star_positions n)"

text \<open>The parent pointers below \<open>k\<close> form the chain \<open>0 \<rightarrow> 1 \<rightarrow> \<dots> \<rightarrow> k - 1\<close>.\<close>

definition chain :: "nat \<Rightarrow> work \<Rightarrow> bool" where
  "chain k w \<longleftrightarrow>
     (\<forall>v. Suc v < k \<longrightarrow> parent w ! v = int (Suc v)) \<and> (0 < k \<longrightarrow> parent w ! (k - 1) = - 1)"

section \<open>Properties\<close>

subsection \<open>Loops\<close>

lemma tags_visit: "tags (visit r c w) = (tags w)[c := r]"
  by (simp add: visit_def set_parent_def Let_def)

lemma iterate_append:
  "iterate f (xs @ ys) s = (case iterate f xs s of Inl e \<Rightarrow> Inl e | Inr s' \<Rightarrow> iterate f ys s')"
  by (induction xs arbitrary: s) (auto split: sum.splits)

lemma rows_done_0: "rows_done mat 0 = Inr (initial (rows mat))"
  by (simp add: rows_done_def)

lemma rows_done_Suc:
  "rows_done mat (Suc k) =
     (case rows_done mat k of Inl e \<Rightarrow> Inl e | Inr w \<Rightarrow> process_row mat k w)"
  by (simp add: rows_done_def iterate_append split: sum.splits)

lemma iterate_total:
  assumes "P s" and "\<And>x s. x \<in> set xs \<Longrightarrow> P s \<Longrightarrow> \<exists>s'. f x s = Inr s' \<and> P s'"
  shows "\<exists>s'. iterate f xs s = Inr s' \<and> P s'"
  using assms
proof (induction xs arbitrary: s)
  case Nil
  then show ?case by simp
next
  case (Cons x xs)
  from Cons.prems obtain s1 where s1: "f x s = Inr s1" "P s1"
    by (meson list.set_intros(1))
  from Cons.IH [OF s1(2)] Cons.prems(2) obtain s' where "iterate f xs s1 = Inr s'" "P s'"
    by (meson list.set_intros(2))
  with s1 show ?case by simp
qed

lemma parent_visit:
  "c < length (parent w) \<Longrightarrow>
   parent (visit r c w) = (if parent w ! c = - 1 then (parent w)[c := r] else parent w)"
  by (simp add: visit_def set_parent_def Let_def)

lemma sized_visit: "sized n w \<Longrightarrow> sized n (visit r c w)"
  by (simp add: sized_def visit_def set_parent_def Let_def)

lemma within_row_visit:
  assumes "within_row n r w" and "c < r" 
  shows "within_row n r (visit (int r) c w)"
    and "int c < parent (visit (int r) c w) ! c" and "parent (visit (int r) c w) ! c \<le> int r"
proof -
  from assms have len: "c < length (parent w)" "c < length (tags w)" "r < length (tags w)"
    by (auto simp: within_row_def sized_def)
  from assms have pc: "parent w ! c = - 1 \<or> (int c < parent w ! c \<and> parent w ! c \<le> int r)"
    by (auto simp: within_row_def climbing_def)
  show "int c < parent (visit (int r) c w) ! c" "parent (visit (int r) c w) ! c \<le> int r"
    using pc len assms(2) by (auto simp: parent_visit)
  have "climbing (Suc r) (int r) (visit (int r) c w)"
    using assms len unfolding within_row_def climbing_def
    by (auto simp: parent_visit nth_list_update)
  moreover have "tags (visit (int r) c w) ! r = int r"
    using assms len by (simp add: tags_visit within_row_def nth_list_update)
  moreover have "\<forall>v<r. tags (visit (int r) c w) ! v \<le> int r"
    using assms len by (simp add: tags_visit within_row_def nth_list_update)
  ultimately show "within_row n r (visit (int r) c w)"
    using assms(1) by (simp add: within_row_def sized_visit)
qed

lemma walk_total:
  "within_row n r' w \<Longrightarrow> r = int r' \<Longrightarrow> 0 \<le> c \<Longrightarrow> c \<le> r \<Longrightarrow>
     \<exists>w'. walk r c w = Inr w' \<and> within_row n r' w'"
proof (induction r c w rule: walk.induct)
  case (1 r c w)
  from "1.prems" have inb: "in_bounds w c"
    by (auto simp: in_bounds_def within_row_def sized_def)
  show ?case
  proof (cases "tags w ! nat c = r")
    case True
    with inb "1.prems"(1) show ?thesis by (simp add: walk.simps)
  next
    case False
    with "1.prems" have "c \<noteq> r" by (auto simp: within_row_def)
    with "1.prems" have lt: "nat c < r'" by simp
    note v = within_row_visit [OF "1.prems"(1) lt]
    have "\<exists>w'. walk r (parent (visit r (nat c) w) ! nat c) (visit r (nat c) w) = Inr w'
              \<and> within_row n r' w'"
      using "1.IH" [OF _ False] inb v "1.prems"(2) by simp
    with inb False show ?thesis by (simp add: walk.simps)
  qed
qed

lemma scan_entry_total:
  assumes "within_row n r w" and "valid_csr mat" and "rows mat = n"
    and "0 \<le> i" and "i < int (length (col_idx mat))"
  shows "\<exists>w'. scan_entry mat (int r) i w = Inr w' \<and> within_row n r w'"
proof -
  let ?c = "col_idx mat ! nat i"
  from assms have f: "fetch (col_idx mat) i = Inr ?c" by (simp add: fetch_def)
  from assms have "?c \<in> set (col_idx mat)" by simp
  with assms(2) have c0: "0 \<le> ?c" by (auto simp: valid_csr_def)
  show ?thesis
  proof (cases "?c < int r")
    case True
    with walk_total [OF assms(1) refl c0] f show ?thesis by (simp add: scan_entry_def)
  next
    case False
    with f assms(1) show ?thesis by (simp add: scan_entry_def)
  qed
qed

lemma within_row_begin:
  assumes "between_rows n r w" and "r < n"
  shows "within_row n r (begin_row r w)"
proof -
  from assms have len: "length (parent w) = n" "length (tags w) = n" "length (nonZerosPerCol w) = n"
    by (auto simp: between_rows_def sized_def)
  have "climbing (Suc r) (int r) (begin_row r w)"
    using assms len unfolding between_rows_def climbing_def
    by (auto simp: begin_row_def nth_list_update less_Suc_eq)
  moreover have "\<forall>v<r. tags (begin_row r w) ! v \<le> int r"
    using assms len by (auto simp: begin_row_def between_rows_def nth_list_update dest: order.strict_implies_order)
  ultimately show ?thesis
    using assms len by (simp add: within_row_def sized_def begin_row_def)
qed

lemma between_rows_end: "within_row n r w \<Longrightarrow> between_rows n (Suc r) w"
  unfolding within_row_def between_rows_def climbing_def
  by (auto simp: less_Suc_eq)

lemma row_ptr_bounds:
  assumes "valid_csr mat" and "r < rows mat"
  shows "fetch (row_ptr mat) (int r) = Inr (row_ptr mat ! r)"
    and "fetch (row_ptr mat) (int r + 1) = Inr (row_ptr mat ! Suc r)"
    and "0 \<le> row_ptr mat ! r" and "row_ptr mat ! Suc r \<le> int (length (col_idx mat))"
proof -
  from assms have len: "length (row_ptr mat) = rows mat + 1" and srt: "sorted (row_ptr mat)"
    by (auto simp: valid_csr_def)
  show "fetch (row_ptr mat) (int r) = Inr (row_ptr mat ! r)"
    using len assms(2) by (simp add: fetch_def)
  have "nat (int r + 1) = Suc r" by simp
  then show "fetch (row_ptr mat) (int r + 1) = Inr (row_ptr mat ! Suc r)"
    using len assms(2) by (simp add: fetch_def)
  have "row_ptr mat ! 0 \<le> row_ptr mat ! r"
    using srt len assms(2) by (intro sorted_nth_mono) simp_all
  with assms(1) show "0 \<le> row_ptr mat ! r" by (simp add: valid_csr_def)
  have "row_ptr mat ! Suc r \<le> row_ptr mat ! rows mat"
    using srt len assms(2) by (intro sorted_nth_mono) simp_all
  with assms(1) show "row_ptr mat ! Suc r \<le> int (length (col_idx mat))"
    by (simp add: valid_csr_def)
qed

lemma process_row_total:
  assumes "between_rows (rows mat) r w" and "valid_csr mat" and "r < rows mat"
  shows "\<exists>w'. process_row mat r w = Inr w' \<and> between_rows (rows mat) (Suc r) w'"
proof -
  note rp = row_ptr_bounds [OF assms(2,3)]
  have "\<exists>w'. iterate (scan_entry mat (int r)) [row_ptr mat ! r..row_ptr mat ! Suc r - 1]
            (begin_row r w) = Inr w' \<and> within_row (rows mat) r w'"
  proof (rule iterate_total [where P = "within_row (rows mat) r"])
    show "within_row (rows mat) r (begin_row r w)"
      by (rule within_row_begin [OF assms(1,3)])
  next
    fix i s assume "i \<in> set [row_ptr mat ! r..row_ptr mat ! Suc r - 1]" "within_row (rows mat) r s"
    then show "\<exists>s'. scan_entry mat (int r) i s = Inr s' \<and> within_row (rows mat) r s'"
      using rp(3,4) by (intro scan_entry_total [OF _ assms(2)]) auto
  qed
  then show ?thesis
    using rp(1,2) by (auto simp: process_row_def Let_def dest: between_rows_end)
qed

lemma between_rows_initial: "between_rows n 0 (initial n)"
  by (simp add: between_rows_def sized_def climbing_def initial_def)

lemma rows_done_total:
  "valid_csr mat \<Longrightarrow> k \<le> rows mat \<Longrightarrow>
     \<exists>w. rows_done mat k = Inr w \<and> between_rows (rows mat) k w"
proof (induction k)
  case 0
  then show ?case by (simp add: rows_done_0 between_rows_initial)
next
  case (Suc k)
  then obtain w where w: "rows_done mat k = Inr w" "between_rows (rows mat) k w" by auto
  from process_row_total [OF w(2) Suc.prems(1)] Suc.prems(2) w(1)
  show ?case by (simp add: rows_done_Suc)
qed

subsection \<open>Memory safety and termination\<close>

text \<open>
  Claim C10. On an input that satisfies the compressed-row invariants the routine runs
  to completion without a fault: no read or write of \<open>parent\<close>, \<open>tags\<close> or
  \<open>nonZerosPerCol\<close> (nor of \<open>row_ptr\<close>, \<open>col_idx\<close>) leaves its array, and every walk
  ends (\<open>walk\<close> is a total function). After any number \<open>k\<close> of rows the arrays still have
  length \<open>n\<close> and every parent pointer below \<open>k\<close> is either unset or strictly greater than
  its node and smaller than \<open>k\<close>.
\<close>

theorem walk_in_bounds:
  assumes "valid_csr mat"
  shows "(\<exists>res. count_nnz_fillin mat = Inr res) \<and>
         (\<forall>k\<le>rows mat. \<exists>w. rows_done mat k = Inr w \<and> sized (rows mat) w \<and>
            (\<forall>v<k. parent w ! v = - 1 \<or> (int v < parent w ! v \<and> parent w ! v < int k)))"
proof
  from rows_done_total [OF assms order_refl] show "\<exists>res. count_nnz_fillin mat = Inr res"
    by (auto simp: count_nnz_fillin_def)
next
  show "\<forall>k\<le>rows mat. \<exists>w. rows_done mat k = Inr w \<and> sized (rows mat) w \<and>
            (\<forall>v<k. parent w ! v = - 1 \<or> (int v < parent w ! v \<and> parent w ! v < int k))"
  proof (intro allI impI)
    fix k assume "k \<le> rows mat"
    from rows_done_total [OF assms this] obtain w
      where w: "rows_done mat k = Inr w" "between_rows (rows mat) k w" by blast
    from w(2) have "\<forall>v<k. parent w ! v = - 1 \<or> (int v < parent w ! v \<and> parent w ! v < int k)"
      by (auto simp: between_rows_def climbing_def)
    with w show "\<exists>w. rows_done mat k = Inr w \<and> sized (rows mat) w \<and>
            (\<forall>v<k. parent w ! v = - 1 \<or> (int v < parent w ! v \<and> parent w ! v < int k))"
      by (auto simp: between_rows_def)
  qed
qed

theorem walk_in_bounds_witness:
  "valid_csr star4 \<and> (\<exists>res. count_nnz_fillin star4 = Inr res) \<and>
   (\<exists>w. rows_done star4 (rows star4) = Inr w \<and> sized (rows star4) w \<and>
      (\<forall>v<rows star4. parent w ! v = - 1 \<or>
         (int v < parent w ! v \<and> parent w ! v < int (rows star4))))"
proof -
  have v: "valid_csr star4" by (simp add: valid_csr_def star4_def)
  from walk_in_bounds [OF v] have "\<exists>res. count_nnz_fillin star4 = Inr res"
    and "\<forall>k\<le>rows star4. \<exists>w. rows_done star4 k = Inr w \<and> sized (rows star4) w \<and>
            (\<forall>v<k. parent w ! v = - 1 \<or> (int v < parent w ! v \<and> parent w ! v < int k))"
    by blast+
  with v show ?thesis by blast
qed

subsection \<open>Invariants carried through the loops\<close>

lemma walk_invariant:
  assumes vis: "\<And>c w. within_row n r' w \<Longrightarrow> R w \<Longrightarrow> c < r' \<Longrightarrow> tags w ! c \<noteq> int r'
                  \<Longrightarrow> R (visit (int r') c w)"
  shows "within_row n r' w \<Longrightarrow> R w \<Longrightarrow> r = int r' \<Longrightarrow> 0 \<le> c \<Longrightarrow> c \<le> r \<Longrightarrow>
     \<exists>w'. walk r c w = Inr w' \<and> within_row n r' w' \<and> R w'"
proof (induction r c w rule: walk.induct)
  case (1 r c w)
  from "1.prems" have inb: "in_bounds w c"
    by (auto simp: in_bounds_def within_row_def sized_def)
  show ?case
  proof (cases "tags w ! nat c = r")
    case True
    with inb "1.prems"(1,2) show ?thesis by (simp add: walk.simps)
  next
    case False
    with "1.prems" have "c \<noteq> r" by (auto simp: within_row_def)
    with "1.prems" have lt: "nat c < r'" by simp
    note v = within_row_visit [OF "1.prems"(1) lt]
    have "R (visit r (nat c) w)"
      using vis [OF "1.prems"(1,2) lt] False "1.prems"(3) by simp
    then have "\<exists>w'. walk r (parent (visit r (nat c) w) ! nat c) (visit r (nat c) w) = Inr w'
              \<and> within_row n r' w' \<and> R w'"
      using "1.IH" [OF _ False] inb v "1.prems"(3) by simp
    with inb False show ?thesis by (simp add: walk.simps)
  qed
qed

lemma process_row_invariant:
  assumes "valid_csr mat" and "r < rows mat" and "between_rows (rows mat) r w"
    and beg: "R (begin_row r w)"
    and vis: "\<And>c w. within_row (rows mat) r w \<Longrightarrow> R w \<Longrightarrow> c < r \<Longrightarrow> tags w ! c \<noteq> int r
                  \<Longrightarrow> R (visit (int r) c w)"
  shows "\<exists>w'. process_row mat r w = Inr w' \<and> within_row (rows mat) r w' \<and> R w'"
proof -
  note rp = row_ptr_bounds [OF assms(1,2)]
  let ?P = "\<lambda>w. within_row (rows mat) r w \<and> R w"
  have "\<exists>w'. iterate (scan_entry mat (int r)) [row_ptr mat ! r..row_ptr mat ! Suc r - 1]
            (begin_row r w) = Inr w' \<and> ?P w'"
  proof (rule iterate_total [where P = ?P])
    show "?P (begin_row r w)"
      using within_row_begin [OF assms(3,2)] beg by simp
  next
    fix i s assume i: "i \<in> set [row_ptr mat ! r..row_ptr mat ! Suc r - 1]" and s: "?P s"
    let ?c = "col_idx mat ! nat i"
    from i rp(3,4) have ib: "0 \<le> i" "i < int (length (col_idx mat))" by auto
    then have f: "fetch (col_idx mat) i = Inr ?c" by (simp add: fetch_def)
    from ib have "?c \<in> set (col_idx mat)" by simp
    with assms(1) have c0: "0 \<le> ?c" by (auto simp: valid_csr_def)
    show "\<exists>s'. scan_entry mat (int r) i s = Inr s' \<and> ?P s'"
    proof (cases "?c < int r")
      case True
      from s have "within_row (rows mat) r s" "R s" by simp_all
      from walk_invariant [where R = R, OF vis this refl c0] True f
      show ?thesis by (simp add: scan_entry_def)
    next
      case False
      with f s show ?thesis by (simp add: scan_entry_def)
    qed
  qed
  then show ?thesis
    using rp(1,2) by (simp add: process_row_def Let_def)
qed

lemma rows_done_invariant:
  assumes "valid_csr mat" and init: "Q 0 (initial (rows mat))"
    and step: "\<And>r w w'. r < rows mat \<Longrightarrow> between_rows (rows mat) r w \<Longrightarrow> Q r w \<Longrightarrow>
                 process_row mat r w = Inr w' \<Longrightarrow> Q (Suc r) w'"
  shows "k \<le> rows mat \<Longrightarrow> \<exists>w. rows_done mat k = Inr w \<and> between_rows (rows mat) k w \<and> Q k w"
proof (induction k)
  case 0
  then show ?case by (simp add: rows_done_0 between_rows_initial init)
next
  case (Suc k)
  then obtain w where w: "rows_done mat k = Inr w" "between_rows (rows mat) k w" "Q k w" by auto
  from Suc.prems have k: "k < rows mat" by simp
  from process_row_total [OF w(2) assms(1) k] obtain w'
    where w': "process_row mat k w = Inr w'" "between_rows (rows mat) (Suc k) w'" by blast
  from step [OF k w(2,3) w'(1)] w' w(1) show ?case by (simp add: rows_done_Suc)
qed

subsection \<open>The returned value\<close>

lemma sum_list_bump:
  "c < length xs \<Longrightarrow> sum_list (xs[c := xs ! c + 1]) = sum_list xs + (1::int)"
  by (induction xs arbitrary: c) (auto split: nat.splits)

lemma marks_visit: "marks (visit r c w) = Suc (marks w)"
  by (simp add: marks_def visit_def set_parent_def Let_def)

lemma tallied_visit:
  assumes "tallied n (Suc r) w" and "c < r" and "sized n w" and "r < n"
  shows "tallied n (Suc r) (visit (int r) c w)"
proof -
  from assms have len: "c < length (nonZerosPerCol w)" by (simp add: sized_def)
  have nz: "nonZerosPerCol (visit (int r) c w) = (nonZerosPerCol w)[c := nonZerosPerCol w ! c + 1]"
    and n1: "nnz (visit (int r) c w) = nnz w + 1"
    by (simp_all add: visit_def set_parent_def Let_def)
  show ?thesis
    using assms len unfolding tallied_def
    by (simp add: nz n1 marks_visit sum_list_bump)
qed

lemma tallied_begin:
  assumes "tallied n r w" and "r < n"
  shows "tallied n (Suc r) (begin_row r w)"
proof -
  from assms have "nonZerosPerCol w ! r = 0" by (simp add: tallied_def)
  then have "(nonZerosPerCol w)[r := 0] = nonZerosPerCol w"
    by (metis list_update_id)
  with assms show ?thesis
    by (simp add: tallied_def begin_row_def marks_def)
qed

lemma tallied_rows:
  assumes "valid_csr mat" and "k \<le> rows mat"
  shows "\<exists>w. rows_done mat k = Inr w \<and> between_rows (rows mat) k w \<and> tallied (rows mat) k w"
proof (rule rows_done_invariant [where Q = "tallied (rows mat)", OF assms(1) _ _ assms(2)])
  show "tallied (rows mat) 0 (initial (rows mat))"
    by (simp add: tallied_def initial_def marks_def sum_list_replicate)
next
  fix r w w'
  assume r: "r < rows mat" and b: "between_rows (rows mat) r w" and t: "tallied (rows mat) r w"
    and p: "process_row mat r w = Inr w'"
  have "\<exists>w'. process_row mat r w = Inr w' \<and> within_row (rows mat) r w'
          \<and> tallied (rows mat) (Suc r) w'"
  proof (rule process_row_invariant [OF assms(1) r b])
    show "tallied (rows mat) (Suc r) (begin_row r w)" by (rule tallied_begin [OF t r])
  next
    fix c w assume "within_row (rows mat) r w" "tallied (rows mat) (Suc r) w" "c < r"
    then show "tallied (rows mat) (Suc r) (visit (int r) c w)"
      by (intro tallied_visit) (simp_all add: within_row_def)
  qed
  with p show "tallied (rows mat) (Suc r) w'" by simp
qed

text \<open>
  With exact counters: on a valid compressed-row pattern of dimension \<open>n\<close> the count is
  \<open>2 * nnz + n\<close>, where \<open>nnz\<close> is the number of nodes marked during all walks of all
  rows; this is also the sum of the per-column counters.
\<close>

lemma exact_twice_marks_plus_rows:
  assumes "valid_csr mat"
  shows "\<exists>w. rows_done mat (rows mat) = Inr w \<and>
           count_nnz_fillin mat = Inr (2 * nnz w + int (rows mat)) \<and>
           nnz w = int (marks w) \<and> nnz w = sum_list (nonZerosPerCol w)"
proof -
  from tallied_rows [OF assms order_refl] obtain w
    where "rows_done mat (rows mat) = Inr w" "tallied (rows mat) (rows mat) w" by blast
  then show ?thesis by (simp add: count_nnz_fillin_def tallied_def)
qed

subsection \<open>The diagonal pattern has no fill-in\<close>

lemma process_row_diagonal:
  assumes "r < n"
  shows "process_row (diagonal_pattern n) r w = Inr (begin_row r w)"
proof -
  have "nat (int r + 1) = Suc r" by simp
  with assms have "fetch (map int [0..<Suc n]) (int r + 1) = Inr (int r + 1)"
    by (simp add: fetch_def del: upt_Suc)
  moreover from assms have "fetch (map int [0..<Suc n]) (int r) = Inr (int r)"
    by (simp add: fetch_def del: upt_Suc)
  moreover from assms have "fetch (map int [0..<n]) (int r) = Inr (int r)"
    by (simp add: fetch_def)
  ultimately show ?thesis
    by (simp add: process_row_def Let_def diagonal_pattern_def scan_entry_def del: upt_Suc)
qed

lemma rows_done_diagonal:
  "k \<le> n \<Longrightarrow> \<exists>w. rows_done (diagonal_pattern n) k = Inr w \<and> nnz w = 0"
proof (induction k)
  case 0
  then show ?case by (simp add: rows_done_0 initial_def)
next
  case (Suc k)
  then obtain w where "rows_done (diagonal_pattern n) k = Inr w" "nnz w = 0" by auto
  with Suc.prems show ?case
    by (simp add: rows_done_Suc process_row_diagonal begin_row_def)
qed

text \<open>
  Claim C5. For every \<open>n\<close>, the routine returns exactly \<open>n\<close> on the \<open>n \<times> n\<close> pattern
  whose only stored entries are the diagonal ones.
\<close>

theorem diagonal_count: "count_nnz_fillin (diagonal_pattern n) = Inr (int n)"
proof -
  from rows_done_diagonal [OF order_refl] obtain w
    where "rows_done (diagonal_pattern n) n = Inr w" "nnz w = 0" by blast
  moreover have "rows (diagonal_pattern n) = n" by (simp add: diagonal_pattern_def)
  ultimately show ?thesis by (simp add: count_nnz_fillin_def)
qed

theorem diagonal_count_witness:
  "diagonal_pattern 3 = \<lparr>rows = 3, row_ptr = [0, 1, 2, 3], col_idx = [0, 1, 2]\<rparr> \<and>
   count_nnz_fillin (diagonal_pattern 3) = Inr 3"
  using diagonal_count [of 3] by (simp add: diagonal_pattern_def upt_rec)

subsection \<open>Parent pointers are stored once\<close>

lemma history_visit:
  "history (visit r c w) =
     history w @ (if parent w ! c = - 1 then [ParentStore c r] else []) @ [Marked c r]"
  by (simp add: visit_def set_parent_def Let_def)

lemma parent_stores_visit:
  "parent_stores (visit r c w) v =
     parent_stores w v @ (if parent w ! c = - 1 \<and> c = v then [r] else [])"
  by (cases "parent w ! c = - 1") (simp_all add: parent_stores_def history_visit)

lemma reached_in_visit:
  "reached_in (visit r c w) v = reached_in w v @ (if c = v then [r] else [])"
  by (simp add: reached_in_def history_visit)

lemma recorded_visit:
  assumes "recorded n (Suc r) w" and "c < r" and "sized n w" and "r < n"
  shows "recorded n (Suc r) (visit (int r) c w)"
proof -
  from assms have len: "c < length (parent w)" by (simp add: sized_def)
  have "if v < Suc r then settled (visit (int r) c w) v else untouched (visit (int r) c w) v"
    if "v < n" for v
  proof (cases "v = c")
    case True
    from assms(1,2,4) have "settled w c" by (simp add: recorded_def)
    then have "settled (visit (int r) c w) c"
      using len by (auto simp: settled_def parent_stores_visit reached_in_visit parent_visit)
    with True assms(2) show ?thesis by simp
  next
    case False
    then have "parent (visit (int r) c w) ! v = parent w ! v"
      using len by (simp add: parent_visit)
    with False have "settled (visit (int r) c w) v = settled w v"
      and "untouched (visit (int r) c w) v = untouched w v"
      by (simp_all add: settled_def untouched_def parent_stores_visit reached_in_visit)
    moreover from assms(1) that have "if v < Suc r then settled w v else untouched w v"
      by (simp add: recorded_def)
    ultimately show ?thesis by simp
  qed
  then show ?thesis by (simp add: recorded_def)
qed

lemma recorded_begin:
  assumes "recorded n r w" and "r < n" and "sized n w"
  shows "recorded n (Suc r) (begin_row r w)"
proof -
  from assms have len: "r < length (parent w)" by (simp add: sized_def)
  have ps: "parent_stores (begin_row r w) v = parent_stores w v @ (if v = r then [- 1] else [])"
    and ri: "reached_in (begin_row r w) v = reached_in w v" for v
    by (auto simp: parent_stores_def reached_in_def begin_row_def)
  have pa: "parent (begin_row r w) = (parent w)[r := - 1]"
    by (simp add: begin_row_def)
  have "if v < Suc r then settled (begin_row r w) v else untouched (begin_row r w) v"
    if "v < n" for v
  proof (cases "v = r")
    case True
    from assms(1,2) have "untouched w r" by (simp add: recorded_def)
    with True len show ?thesis by (simp add: settled_def untouched_def ps ri pa)
  next
    case False
    then have "settled (begin_row r w) v = settled w v"
      and "untouched (begin_row r w) v = untouched w v"
      by (simp_all add: settled_def untouched_def ps ri pa)
    moreover from assms(1) that have "if v < r then settled w v else untouched w v"
      by (simp add: recorded_def)
    ultimately show ?thesis using False by (simp add: less_Suc_eq)
  qed
  then show ?thesis by (simp add: recorded_def)
qed

lemma recorded_rows:
  assumes "valid_csr mat" and "k \<le> rows mat"
  shows "\<exists>w. rows_done mat k = Inr w \<and> between_rows (rows mat) k w \<and> recorded (rows mat) k w"
proof (rule rows_done_invariant [where Q = "recorded (rows mat)", OF assms(1) _ _ assms(2)])
  show "recorded (rows mat) 0 (initial (rows mat))"
    by (simp add: recorded_def untouched_def initial_def parent_stores_def reached_in_def)
next
  fix r w w'
  assume r: "r < rows mat" and b: "between_rows (rows mat) r w" and t: "recorded (rows mat) r w"
    and p: "process_row mat r w = Inr w'"
  have "\<exists>w'. process_row mat r w = Inr w' \<and> within_row (rows mat) r w'
          \<and> recorded (rows mat) (Suc r) w'"
  proof (rule process_row_invariant [OF assms(1) r b])
    from b show "recorded (rows mat) (Suc r) (begin_row r w)"
      by (intro recorded_begin [OF t r]) (simp add: between_rows_def)
  next
    fix c w assume "within_row (rows mat) r w" "recorded (rows mat) (Suc r) w" "c < r"
    then show "recorded (rows mat) (Suc r) (visit (int r) c w)"
      by (intro recorded_visit) (simp_all add: within_row_def)
  qed
  with p show "recorded (rows mat) (Suc r) w'" by simp
qed

text \<open>
  Claim C8. In one call on a valid pattern, the stores into \<open>parent[v]\<close> are the
  initialisation to \<open>-1\<close> followed by at most one store of a row index. If a walk ever
  reached \<open>v\<close>, the one store happened in the first such walk and wrote its row \<open>r > v\<close>,
  which \<open>parent[v]\<close> still holds at the end; if none did, \<open>parent[v]\<close> is \<open>-1\<close> at the end.
\<close>

theorem parent_stored_once:
  assumes "valid_csr mat"
  shows "\<exists>w. rows_done mat (rows mat) = Inr w \<and>
           (\<forall>v<rows mat.
              (parent w ! v = - 1 \<and> parent_stores w v = [- 1] \<and> reached_in w v = []) \<or>
              (int v < parent w ! v \<and> parent w ! v < int (rows mat) \<and>
               parent_stores w v = [- 1, parent w ! v] \<and>
               reached_in w v \<noteq> [] \<and> hd (reached_in w v) = parent w ! v))"
proof -
  from recorded_rows [OF assms order_refl] obtain w
    where w: "rows_done mat (rows mat) = Inr w" "between_rows (rows mat) (rows mat) w"
      "recorded (rows mat) (rows mat) w" by blast
  have "(parent w ! v = - 1 \<and> parent_stores w v = [- 1] \<and> reached_in w v = []) \<or>
        (int v < parent w ! v \<and> parent w ! v < int (rows mat) \<and>
         parent_stores w v = [- 1, parent w ! v] \<and>
         reached_in w v \<noteq> [] \<and> hd (reached_in w v) = parent w ! v)"
    if "v < rows mat" for v
  proof -
    from w(3) that have s: "settled w v" by (simp add: recorded_def)
    from w(2) that have "parent w ! v = - 1 \<or> (int v < parent w ! v \<and> parent w ! v < int (rows mat))"
      by (auto simp: between_rows_def climbing_def)
    with s show ?thesis by (auto simp: settled_def)
  qed
  with w(1) show ?thesis by blast
qed

theorem parent_stored_once_witness:
  "valid_csr star4 \<and>
   (\<exists>w. rows_done star4 (rows star4) = Inr w \<and> parent w = [1, 2, 3, - 1] \<and>
      (\<forall>v<rows star4.
         (parent w ! v = - 1 \<and> parent_stores w v = [- 1] \<and> reached_in w v = []) \<or>
         (int v < parent w ! v \<and> parent w ! v < int (rows star4) \<and>
          parent_stores w v = [- 1, parent w ! v] \<and>
          reached_in w v \<noteq> [] \<and> hd (reached_in w v) = parent w ! v)))"
proof -
  have v: "valid_csr star4" by (simp add: valid_csr_def star4_def)
  have "map_sum id parent (rows_done star4 (rows star4)) = Inr [1, 2, 3, - 1]"
    by code_simp
  with v parent_stored_once [OF v] show ?thesis by auto
qed

subsection \<open>Every stored entry is counted\<close>

lemma walk_marks:
  "walk r c w = Inr w' \<Longrightarrow>
     length (tags w') = length (tags w) \<and> 0 \<le> c \<and> nat c < length (tags w) \<and>
     tags w' ! nat c = r \<and> (\<forall>v<length (tags w). tags w ! v = r \<longrightarrow> tags w' ! v = r)"
proof (induction r c w rule: walk.induct)
  case (1 r c w)
  from "1.prems" have inb: "in_bounds w c"
    by (auto simp: walk.simps [of r c w] split: if_splits)
  then have c: "0 \<le> c" "nat c < length (tags w)" by (auto simp: in_bounds_def)
  show ?case
  proof (cases "tags w ! nat c = r")
    case True
    with inb "1.prems" have "w' = w" by (simp add: walk.simps [of r c w])
    with True c show ?thesis by simp
  next
    case False
    let ?w = "visit r (nat c) w"
    from inb False "1.prems" have "walk r (parent ?w ! nat c) ?w = Inr w'"
      by (simp add: walk.simps [of r c w])
    from "1.IH" [OF _ False this] inb
    have len: "length (tags w') = length (tags ?w)"
      and keep: "\<forall>v<length (tags ?w). tags ?w ! v = r \<longrightarrow> tags w' ! v = r"
      by simp_all
    have t: "tags ?w = (tags w)[nat c := r]" by (rule tags_visit)
    from keep c have "tags w' ! nat c = r" by (simp add: t)
    moreover have "\<forall>v<length (tags w). tags w ! v = r \<longrightarrow> tags w' ! v = r"
      using keep c by (auto simp: t nth_list_update)
    ultimately show ?thesis using len c by (simp add: t)
  qed
qed

lemma scan_marks:
  assumes "iterate (scan_entry mat r) is w = Inr w'"
    and "\<forall>i\<in>set is. 0 \<le> i \<and> i < int (length (col_idx mat))"
  shows "length (tags w') = length (tags w) \<and>
         (\<forall>v<length (tags w). tags w ! v = r \<longrightarrow> tags w' ! v = r) \<and>
         (\<forall>i\<in>set is. col_idx mat ! nat i < r \<longrightarrow> tags w' ! nat (col_idx mat ! nat i) = r)"
  using assms
proof (induction "is" arbitrary: w)
  case Nil
  then show ?case by simp
next
  case (Cons i "is")
  let ?c = "col_idx mat ! nat i"
  from Cons.prems(2) have f: "fetch (col_idx mat) i = Inr ?c" by (simp add: fetch_def)
  from Cons.prems(1) obtain w1 where w1: "scan_entry mat r i w = Inr w1"
    "iterate (scan_entry mat r) is w1 = Inr w'"
    by (auto split: sum.splits)
  have first: "length (tags w1) = length (tags w) \<and>
      (\<forall>v<length (tags w). tags w ! v = r \<longrightarrow> tags w1 ! v = r) \<and>
      (?c < r \<longrightarrow> nat ?c < length (tags w) \<and> tags w1 ! nat ?c = r)"
  proof (cases "?c < r")
    case True
    with w1(1) f have "walk r ?c w = Inr w1" by (simp add: scan_entry_def)
    from walk_marks [OF this] True show ?thesis by simp
  next
    case False
    with w1(1) f show ?thesis by (simp add: scan_entry_def)
  qed
  from Cons.IH [OF w1(2)] Cons.prems(2)
  have rest: "length (tags w') = length (tags w1)"
    "\<forall>v<length (tags w1). tags w1 ! v = r \<longrightarrow> tags w' ! v = r"
    "\<forall>i\<in>set is. col_idx mat ! nat i < r \<longrightarrow> tags w' ! nat (col_idx mat ! nat i) = r"
    by simp_all
  from first rest show ?case by auto
qed

lemma row_marks:
  assumes "valid_csr mat" and "r < rows mat" and "process_row mat r w = Inr w'"
    and "c \<in> set (row_cols mat r)" and "c < r"
  shows "tags w' ! c = int r"
proof -
  note rp = row_ptr_bounds [OF assms(1,2)]
  let ?is = "[row_ptr mat ! r..row_ptr mat ! Suc r - 1]"
  from assms(3) rp(1,2)
  have it: "iterate (scan_entry mat (int r)) ?is (begin_row r w) = Inr w'"
    by (simp add: process_row_def Let_def)
  have ib: "\<forall>i\<in>set ?is. 0 \<le> i \<and> i < int (length (col_idx mat))"
    using rp(3,4) by auto
  from assms(4) obtain i where i: "i \<in> set ?is" "c = nat (col_idx mat ! nat i)"
    by (auto simp: row_cols_def)
  from ib i(1) have "0 \<le> i" "i < int (length (col_idx mat))" by blast+
  then have "col_idx mat ! nat i \<in> set (col_idx mat)" by simp
  with assms(1) have "0 \<le> col_idx mat ! nat i" by (auto simp: valid_csr_def)
  with i(2) assms(5) have "col_idx mat ! nat i < int r" by simp
  with scan_marks [OF it ib] i show ?thesis by simp
qed

lemma marked_below_visit:
  assumes "c < r" and "tags w ! c \<noteq> int r" and "c < length (tags w)"
  shows "card (marked_below r (visit (int r) c w)) = Suc (card (marked_below r w))"
proof -
  have "marked_below r (visit (int r) c w) = insert c (marked_below r w)"
    using assms by (auto simp: marked_below_def tags_visit nth_list_update)
  moreover have "c \<notin> marked_below r w" using assms by (simp add: marked_below_def)
  moreover have "finite (marked_below r w)" by (simp add: marked_below_def)
  ultimately show ?thesis by simp
qed

lemma row_counts:
  assumes "valid_csr mat" and "r < rows mat" and "between_rows (rows mat) r w"
    and "process_row mat r w = Inr w'"
  shows "nnz w' = nnz w + int (card (marked_below r w'))"
proof -
  let ?R = "\<lambda>s. nnz s = nnz w + int (card (marked_below r s))"
  have "\<exists>w'. process_row mat r w = Inr w' \<and> within_row (rows mat) r w' \<and> ?R w'"
  proof (rule process_row_invariant [OF assms(1,2,3)])
    from assms(2,3) have "marked_below r (begin_row r w) = {}"
      by (auto simp: marked_below_def begin_row_def between_rows_def sized_def)
    then show "?R (begin_row r w)" by (simp add: begin_row_def)
  next
    fix c s assume s: "within_row (rows mat) r s" "?R s" "c < r" "tags s ! c \<noteq> int r"
    then have "c < length (tags s)" by (simp add: within_row_def sized_def)
    from marked_below_visit [OF s(3,4) this] s(2)
    show "?R (visit (int r) c s)" by (simp add: visit_def set_parent_def Let_def)
  qed
  with assms(4) show ?thesis by simp
qed

lemma lower_before_Suc:
  "lower_before mat (Suc k) =
     lower_before mat k \<union> Pair k ` {c. c < k \<and> c \<in> set (row_cols mat k)}"
  by (auto simp: lower_before_def less_Suc_eq)

lemma finite_lower_before: "finite (lower_before mat k)"
proof -
  have "lower_before mat k \<subseteq> {..<k} \<times> {..<k}" by (auto simp: lower_before_def)
  then show ?thesis by (rule finite_subset) simp
qed

lemma lower_counted:
  assumes "valid_csr mat" and "k \<le> rows mat"
  shows "\<exists>w. rows_done mat k = Inr w \<and> between_rows (rows mat) k w
           \<and> int (card (lower_before mat k)) \<le> nnz w"
proof (rule rows_done_invariant
    [where Q = "\<lambda>k w. int (card (lower_before mat k)) \<le> nnz w", OF assms(1) _ _ assms(2)])
  show "int (card (lower_before mat 0)) \<le> nnz (initial (rows mat))"
    by (simp add: lower_before_def initial_def)
next
  fix r w w'
  assume r: "r < rows mat" and b: "between_rows (rows mat) r w"
    and q: "int (card (lower_before mat r)) \<le> nnz w" and p: "process_row mat r w = Inr w'"
  let ?new = "{c. c < r \<and> c \<in> set (row_cols mat r)}"
  have "?new \<subseteq> marked_below r w'"
    using row_marks [OF assms(1) r p] by (auto simp: marked_below_def)
  moreover have "finite (marked_below r w')" by (simp add: marked_below_def)
  ultimately have "card ?new \<le> card (marked_below r w')" by (rule card_mono [rotated])
  moreover have "card (lower_before mat (Suc r)) \<le> card (lower_before mat r) + card (Pair r ` ?new)"
    unfolding lower_before_Suc by (rule card_Un_le)
  moreover have "card (Pair r ` ?new) = card ?new"
    by (rule card_image) (simp add: inj_on_def)
  ultimately show "int (card (lower_before mat (Suc r))) \<le> nnz w'"
    using row_counts [OF assms(1) r b p] q by simp
qed

lemma set_entries:
  "set (entries mat) = {(r, c). r < rows mat \<and> c \<in> set (row_cols mat r)}"
  by (auto simp: entries_def)

text \<open>
  With exact counters: for a valid, structurally symmetric pattern with \<open>k\<close> structurally
  nonzero positions (both triangles and the diagonal), the count is at least \<open>k\<close>.
\<close>

lemma exact_count_at_least_pattern:
  assumes "valid_csr mat" and "structurally_symmetric mat"
  shows "\<exists>res. count_nnz_fillin mat = Inr res \<and> int (structural_nonzeros mat) \<le> res"
proof -
  let ?n = "rows mat"
  let ?E = "set (entries mat)"
  let ?L = "lower_before mat ?n"
  let ?U = "{(r, c). (r, c) \<in> ?E \<and> r < c}"
  let ?D = "{(r, c). (r, c) \<in> ?E \<and> r = c}"
  from lower_counted [OF assms(1) order_refl] obtain w
    where w: "rows_done mat ?n = Inr w" "int (card ?L) \<le> nnz w" by blast
  have fin: "finite ?L" by (rule finite_lower_before)
  have "?U \<subseteq> prod.swap ` ?L"
  proof
    fix p assume "p \<in> ?U"
    then obtain r c where p: "p = (r, c)" "(r, c) \<in> ?E" "r < c" by auto
    with assms(2) have "(c, r) \<in> ?E" by (auto simp: structurally_symmetric_def)
    with p(3) have "(c, r) \<in> ?L" by (simp add: set_entries lower_before_def)
    then have "prod.swap (c, r) \<in> prod.swap ` ?L" by (rule imageI)
    with p(1) show "p \<in> prod.swap ` ?L" by simp
  qed
  then have "card ?U \<le> card (prod.swap ` ?L)"
    using fin by (intro card_mono) simp_all
  also have "\<dots> \<le> card ?L" using fin by (rule card_image_le)
  finally have U: "card ?U \<le> card ?L" .
  have "?D \<subseteq> (\<lambda>r. (r, r)) ` {..<?n}" by (auto simp: set_entries)
  then have "card ?D \<le> card ((\<lambda>r. (r, r)) ` {..<?n})" by (intro card_mono) simp_all
  also have "\<dots> \<le> card {..<?n}" by (rule card_image_le) simp
  finally have D: "card ?D \<le> ?n" by simp
  have "?E \<subseteq> (?L \<union> ?U) \<union> ?D"
    by (auto simp: set_entries lower_before_def)
  moreover have "finite ((?L \<union> ?U) \<union> ?D)"
    using fin by (auto intro: finite_subset [of _ ?E])
  ultimately have "card ?E \<le> card ((?L \<union> ?U) \<union> ?D)" by (rule card_mono [rotated])
  also have "\<dots> \<le> card (?L \<union> ?U) + card ?D" by (rule card_Un_le)
  also have "\<dots> \<le> card ?L + card ?U + card ?D"
    using card_Un_le [of ?L ?U] by simp
  finally have "card ?E \<le> 2 * card ?L + ?n" using U D by simp
  with w(2) have "int (structural_nonzeros mat) \<le> 2 * nnz w + int ?n"
    by (simp add: structural_nonzeros_def)
  with w(1) show ?thesis by (simp add: count_nnz_fillin_def)
qed

subsection \<open>The range of the counters\<close>

text \<open>
  Row \<open>r\<close> marks at most \<open>r\<close> nodes, so on a valid pattern of dimension \<open>n\<close> the counter
  \<open>nnz\<close> stays between 0 and \<open>n (n - 1) / 2\<close> and the returned value between \<open>n\<close> and
  \<open>n\<^sup>2\<close>. In particular no C++ \<^verbatim>\<open>int\<close> of the routine can overflow when \<open>n \<le> 46340\<close>.
\<close>

lemma marked_below_le: "card (marked_below r w) \<le> r"
proof -
  have "marked_below r w \<subseteq> {..<r}" by (auto simp: marked_below_def)
  then have "card (marked_below r w) \<le> card {..<r}" by (intro card_mono) simp_all
  then show ?thesis by simp
qed

lemma nnz_range:
  assumes "valid_csr mat" and "k \<le> rows mat"
  shows "\<exists>w. rows_done mat k = Inr w \<and> between_rows (rows mat) k w
           \<and> (0 \<le> nnz w \<and> 2 * nnz w \<le> int (k * k) - int k)"
proof (rule rows_done_invariant
    [where Q = "\<lambda>k w. 0 \<le> nnz w \<and> 2 * nnz w \<le> int (k * k) - int k", OF assms(1) _ _ assms(2)])
  show "0 \<le> nnz (initial (rows mat)) \<and> 2 * nnz (initial (rows mat)) \<le> int (0 * 0) - int 0"
    by (simp add: initial_def)
next
  fix r w w'
  assume r: "r < rows mat" and b: "between_rows (rows mat) r w"
    and q: "0 \<le> nnz w \<and> 2 * nnz w \<le> int (r * r) - int r"
    and p: "process_row mat r w = Inr w'"
  from row_counts [OF assms(1) r b p] marked_below_le [of r w']
  have "nnz w \<le> nnz w'" and "nnz w' \<le> nnz w + int r" by simp_all
  with q show "0 \<le> nnz w' \<and> 2 * nnz w' \<le> int (Suc r * Suc r) - int (Suc r)"
    by (simp add: algebra_simps)
qed

lemma count_range:
  assumes "valid_csr mat"
  shows "\<exists>res. count_nnz_fillin mat = Inr res \<and> int (rows mat) \<le> res
           \<and> res \<le> int (rows mat * rows mat)"
proof -
  from nnz_range [OF assms order_refl] obtain w
    where "rows_done mat (rows mat) = Inr w" "0 \<le> nnz w"
      "2 * nnz w \<le> int (rows mat * rows mat) - int (rows mat)" by blast
  then show ?thesis by (simp add: count_nnz_fillin_def)
qed

lemma small_dimension_fits:
  assumes "valid_csr mat" and "rows mat \<le> 46340"
  shows "\<exists>res. count_nnz_fillin mat = Inr res \<and> 0 \<le> res \<and> res < 2 ^ 31"
proof -
  from count_range [OF assms(1)] obtain res
    where res: "count_nnz_fillin mat = Inr res" "int (rows mat) \<le> res"
      "res \<le> int (rows mat * rows mat)" by blast
  from assms(2) assms(2) have "rows mat * rows mat \<le> 46340 * 46340" by (rule mult_le_mono)
  then have "int (rows mat * rows mat) \<le> 46340 * 46340" by linarith
  with res show ?thesis by simp
qed

section \<open>Properties of the backend route\<close>

subsection \<open>Failure of the backend\<close>

text \<open>
  Claim C4. With a permutation of the right length, the routine returns \<open>-1\<close> and
  emits a diagnostic if and only if the backend reports a status other than
  \<open>Success\<close>; in that case the result does not depend on the factor data (a backend
  that differs only in its factor data gives the same result), and when the backend
  succeeds the routine returns the factor's nonzero count, which is not negative, and
  emits nothing.
\<close>

theorem failure_is_minus_one:
  assumes "length h_permute = e_rows eigen_mat"
  shows "\<exists>res log. count_nnz_fillin_eigen lib eigen_mat h_permute = Inr (res, log) \<and>
           ((res = - 1 \<and> log \<noteq> []) \<longleftrightarrow> info (solver_of lib eigen_mat h_permute) \<noteq> Success) \<and>
           (info (solver_of lib eigen_mat h_permute) = Success \<longrightarrow>
              res = int (matrixL_nonZeros (solver_of lib eigen_mat h_permute)) \<and> 0 \<le> res \<and> log = []) \<and>
           (info (solver_of lib eigen_mat h_permute) \<noteq> Success \<longrightarrow>
              (\<forall>lib'. same_but_factor lib lib' \<longrightarrow>
                 count_nnz_fillin_eigen lib' eigen_mat h_permute = Inr (res, log)))"
proof (cases "info (solver_of lib eigen_mat h_permute) = Success")
  case True
  with assms show ?thesis
    by (simp add: count_nnz_fillin_eigen_def solver_of_def Let_def)
next
  case False
  have "count_nnz_fillin_eigen lib' eigen_mat h_permute = count_nnz_fillin_eigen lib eigen_mat h_permute"
    if "same_but_factor lib lib'" for lib'
    using that False assms
    by (simp add: count_nnz_fillin_eigen_def solver_of_def Let_def same_but_factor_def)
  with False assms show ?thesis
    by (simp add: count_nnz_fillin_eigen_def solver_of_def Let_def)
qed

subsection \<open>The modelled backend\<close>

lemma sum_list_take_mono:
  "i \<le> j \<Longrightarrow> sum_list (take i xs) \<le> sum_list (take j (xs :: nat list))"
proof -
  assume "i \<le> j"
  then have "take j xs = take i xs @ take (j - i) (drop i xs)"
    by (metis le_add_diff_inverse take_add)
  then show ?thesis by simp
qed

lemma valid_compress: "valid_csr (compress n es)"
proof -
  define rws where "rws = map (\<lambda>r. filter (\<lambda>c. (r, c) \<in> set es) [0..<n]) [0..<n]"
  define f where "f k = int (length (concat (take k rws)))" for k
  have c: "compress n es = \<lparr>rows = n, row_ptr = map f [0..<Suc n], col_idx = map int (concat rws)\<rparr>"
    by (simp add: compress_def rws_def f_def Let_def del: upt_Suc)
  have mono: "f i \<le> f j" if "i \<le> j" for i j
    using sum_list_take_mono [OF that, of "map length rws"]
    by (simp add: f_def length_concat take_map)
  have "sorted (map f [0..<Suc n])"
    unfolding sorted_iff_nth_mono by (auto simp del: upt_Suc intro: mono)
  moreover have "f 0 = 0" by (simp add: f_def)
  moreover have "f n = int (length (concat rws))" by (simp add: f_def rws_def)
  moreover have "\<forall>c\<in>set (concat rws). c < n" by (auto simp: rws_def)
  ultimately show ?thesis
    unfolding c valid_csr_def by (auto simp del: upt_Suc simp: nth_append)
qed

lemma compress_cong: "set es = set es' \<Longrightarrow> compress n es = compress n es'"
  by (simp add: compress_def)

lemma rows_compress: "rows (compress n es) = n"
  by (simp add: compress_def Let_def)

lemma modelled_route:
  assumes "length perm = e_rows A"
  shows "count_nnz_fillin_eigen (modelled_backend numeric) A perm =
     (let m = compress (e_rows A) (permuted_entries A perm)
      in if numeric m \<noteq> Success
         then Inr (- 1,
                [Error ''post_chol_factorization_nnz(): Cholesky decomposition with reorder failed with code {}''
                   (numeric m)])
         else Inr (int (factor_nonZeros m), []))"
proof -
  from assms have "map (\<lambda>i. perm ! i) [0..<e_rows A] = perm"
    by (metis map_nth)
  with assms show ?thesis
    by (simp add: count_nnz_fillin_eigen_def modelled_backend_def Let_def)
qed


subsection \<open>Permuting forth and back\<close>

lemma in_mirrored:
  "x \<in> set (mirrored q (i, j)) \<longleftrightarrow>
     (i = j \<and> x = (q ! i, q ! i)) \<or> (j < i \<and> (x = (q ! i, q ! j) \<or> x = (q ! j, q ! i)))"
  by auto

lemma in_permuted_entries:
  "x \<in> set (permuted_entries A q) \<longleftrightarrow>
     (\<exists>i j. (i, j) \<in> set (e_entries A) \<and>
        ((i = j \<and> x = (q ! i, q ! i)) \<or> (j < i \<and> (x = (q ! i, q ! j) \<or> x = (q ! j, q ! i)))))"
proof -
  have "x \<in> set (permuted_entries A q) \<longleftrightarrow> (\<exists>e\<in>set (e_entries A). x \<in> set (mirrored q e))"
    by (simp add: permuted_entries_def)
  also have "\<dots> \<longleftrightarrow> (\<exists>i j. (i, j) \<in> set (e_entries A) \<and> x \<in> set (mirrored q (i, j)))"
    by (metis surj_pair)
  finally show ?thesis by (simp only: in_mirrored)
qed

lemma identity_entries:
  assumes "symmetric_pattern n es"
  shows "set (permuted_entries (eigen_pattern n es) [0..<n]) = set es"
proof -
  let ?A = "eigen_pattern n es"
  have e: "e_entries ?A = es" by (simp add: eigen_pattern_def)
  have rng: "i < n" "j < n" "(j, i) \<in> set es" if "(i, j) \<in> set es" for i j
    using assms that by (auto simp: symmetric_pattern_def)
  show ?thesis
  proof (rule set_eqI, rule iffI)
    fix x assume "x \<in> set (permuted_entries ?A [0..<n])"
    then obtain i j where ij: "(i, j) \<in> set es"
      and x: "(i = j \<and> x = ([0..<n] ! i, [0..<n] ! i)) \<or>
              (j < i \<and> (x = ([0..<n] ! i, [0..<n] ! j) \<or> x = ([0..<n] ! j, [0..<n] ! i)))"
      unfolding in_permuted_entries e by blast
    note r = rng [OF ij]
    from r have "[0..<n] ! i = i" "[0..<n] ! j = j" by simp_all
    with x have "x = (i, j) \<or> x = (j, i)" by auto
    with ij r(3) show "x \<in> set es" by auto
  next
    fix x assume x: "x \<in> set es"
    obtain i j where ij: "x = (i, j)" by (cases x)
    from x ij have m: "(i, j) \<in> set es" by simp
    note r = rng [OF m]
    from r have id: "[0..<n] ! i = i" "[0..<n] ! j = j" by simp_all
    show "x \<in> set (permuted_entries ?A [0..<n])"
    proof (cases "i < j")
      case False
      then have "(i = j \<and> x = ([0..<n] ! i, [0..<n] ! i)) \<or>
              (j < i \<and> (x = ([0..<n] ! i, [0..<n] ! j) \<or> x = ([0..<n] ! j, [0..<n] ! i)))"
        using ij id by auto
      with m show ?thesis unfolding in_permuted_entries e by blast
    next
      case True
      then have "(j = i \<and> x = ([0..<n] ! j, [0..<n] ! j)) \<or>
              (i < j \<and> (x = ([0..<n] ! j, [0..<n] ! i) \<or> x = ([0..<n] ! i, [0..<n] ! j)))"
        using ij id by auto
      with r(3) show ?thesis unfolding in_permuted_entries e by blast
    qed
  qed
qed

lemma index_of_nth: "distinct p \<Longrightarrow> i < length p \<Longrightarrow> index_of p (p ! i) = i"
proof (induction p arbitrary: i)
  case Nil
  then show ?case by simp
next
  case (Cons y ys)
  then show ?case by (cases i) auto
qed

lemma permutation_facts:
  assumes "is_permutation n p"
  shows "length p = n" and "length (inverse_permutation p) = n"
    and "\<And>i. i < n \<Longrightarrow> p ! i < n"
    and "\<And>i. i < n \<Longrightarrow> inverse_permutation p ! (p ! i) = i"
    and "\<And>i j. i < n \<Longrightarrow> j < n \<Longrightarrow> p ! i = p ! j \<longleftrightarrow> i = j"
proof -
  from assms have d: "distinct p" and s: "set p = {0..<n}" by (auto simp: is_permutation_def)
  from distinct_card [OF d] s show len: "length p = n" by simp
  then show "length (inverse_permutation p) = n" by (simp add: inverse_permutation_def)
  show rng: "p ! i < n" if "i < n" for i
    using that len s nth_mem [of i p] by auto
  show "inverse_permutation p ! (p ! i) = i" if "i < n" for i
    using that rng [OF that] len d by (simp add: inverse_permutation_def index_of_nth)
  show "p ! i = p ! j \<longleftrightarrow> i = j" if "i < n" "j < n" for i j
    using that len d by (simp add: nth_eq_iff_index_eq)
qed

lemma relabelled_entries:
  assumes "symmetric_pattern n es" and "is_permutation n p"
  shows "set (permuted_entries (eigen_pattern n (relabel p es)) (inverse_permutation p)) = set es"
proof -
  let ?q = "inverse_permutation p"
  let ?A = "eigen_pattern n (relabel p es)"
  note pf = permutation_facts [OF assms(2)]
  have e: "e_entries ?A = relabel p es" by (simp add: eigen_pattern_def)
  have rel: "(a, b) \<in> set (relabel p es) \<longleftrightarrow> (\<exists>i j. (i, j) \<in> set es \<and> a = p ! i \<and> b = p ! j)"
    for a b
    by (auto simp: relabel_def)
  have rng: "i < n" "j < n" "(j, i) \<in> set es" if "(i, j) \<in> set es" for i j
    using assms(1) that by (auto simp: symmetric_pattern_def)
  show ?thesis
  proof (rule set_eqI, rule iffI)
    fix x assume "x \<in> set (permuted_entries ?A ?q)"
    then obtain a b where ab: "(a, b) \<in> set (relabel p es)"
      and x: "(a = b \<and> x = (?q ! a, ?q ! a)) \<or>
              (b < a \<and> (x = (?q ! a, ?q ! b) \<or> x = (?q ! b, ?q ! a)))"
      unfolding in_permuted_entries e by blast
    from ab obtain i j where ij: "(i, j) \<in> set es" and a: "a = p ! i" and b: "b = p ! j"
      unfolding rel by blast
    note r = rng [OF ij]
    have qa: "?q ! a = i" unfolding a by (rule pf(4) [OF r(1)])
    have qb: "?q ! b = j" unfolding b by (rule pf(4) [OF r(2)])
    have "x = (i, j) \<or> x = (j, i)"
    proof (cases "a = b")
      case True
      then have "p ! i = p ! j" unfolding a b .
      then have "i = j" using pf(5) [OF r(1,2)] by blast
      moreover from x True have "x = (?q ! a, ?q ! a)" by blast
      then have "x = (i, i)" unfolding qa .
      ultimately show ?thesis by blast
    next
      case False
      with x have "x = (?q ! a, ?q ! b) \<or> x = (?q ! b, ?q ! a)" by blast
      then show ?thesis unfolding qa qb .
    qed
    with ij r(3) show "x \<in> set es" by blast
  next
    fix x assume x: "x \<in> set es"
    obtain i j where ij: "x = (i, j)" by (cases x)
    from x ij have m: "(i, j) \<in> set es" by blast
    note r = rng [OF m]
    have qi: "?q ! (p ! i) = i" by (rule pf(4) [OF r(1)])
    have qj: "?q ! (p ! j) = j" by (rule pf(4) [OF r(2)])
    consider (eq) "p ! i = p ! j" | (gt) "p ! j < p ! i" | (lt) "p ! i < p ! j"
      by (rule linorder_cases [of "p ! i" "p ! j"]) blast+
    then show "x \<in> set (permuted_entries ?A ?q)"
    proof cases
      case eq
      then have "i = j" using pf(5) [OF r(1,2)] by blast
      have "(p ! i, p ! i) \<in> set (relabel p es)"
        using m unfolding rel \<open>i = j\<close> by blast
      moreover from ij \<open>i = j\<close> have "x = (i, i)" by blast
      then have "x = (?q ! (p ! i), ?q ! (p ! i))" by (simp only: qi)
      ultimately show ?thesis unfolding in_permuted_entries e by blast
    next
      case gt
      have "(p ! i, p ! j) \<in> set (relabel p es)" using m unfolding rel by blast
      moreover have "x = (?q ! (p ! i), ?q ! (p ! j))" unfolding qi qj ij ..
      ultimately show ?thesis using gt unfolding in_permuted_entries e by blast
    next
      case lt
      have "(p ! j, p ! i) \<in> set (relabel p es)" using r(3) unfolding rel by blast
      moreover have "x = (?q ! (p ! i), ?q ! (p ! j))" unfolding qi qj ij ..
      ultimately show ?thesis using lt unfolding in_permuted_entries e by blast
    qed
  qed
qed

theorem failure_is_minus_one_witness:
  "length [0, 1, 2, 3 :: nat] = e_rows (eigen_pattern 4 star_entries) \<and>
   count_nnz_fillin_eigen (modelled_backend always_fails) (eigen_pattern 4 star_entries) [0, 1, 2, 3]
     = Inr (- 1,
         [Error ''post_chol_factorization_nnz(): Cholesky decomposition with reorder failed with code {}''
            NumericalIssue]) \<and>
   (\<exists>res log.
      count_nnz_fillin_eigen (modelled_backend always_fails) (eigen_pattern 4 star_entries) [0, 1, 2, 3]
        = Inr (res, log) \<and>
      ((res = - 1 \<and> log \<noteq> []) \<longleftrightarrow>
         info (solver_of (modelled_backend always_fails) (eigen_pattern 4 star_entries) [0, 1, 2, 3])
           \<noteq> Success) \<and>
      (info (solver_of (modelled_backend always_fails) (eigen_pattern 4 star_entries) [0, 1, 2, 3])
           = Success \<longrightarrow>
         res = int (matrixL_nonZeros
           (solver_of (modelled_backend always_fails) (eigen_pattern 4 star_entries) [0, 1, 2, 3]))
         \<and> 0 \<le> res \<and> log = []) \<and>
      (info (solver_of (modelled_backend always_fails) (eigen_pattern 4 star_entries) [0, 1, 2, 3])
           \<noteq> Success \<longrightarrow>
         (\<forall>lib'. same_but_factor (modelled_backend always_fails) lib' \<longrightarrow>
            count_nnz_fillin_eigen lib' (eigen_pattern 4 star_entries) [0, 1, 2, 3] = Inr (res, log))))"
proof -
  have len: "length [0, 1, 2, 3 :: nat] = e_rows (eigen_pattern 4 star_entries)"
    by (simp add: eigen_pattern_def)
  have "count_nnz_fillin_eigen (modelled_backend always_fails) (eigen_pattern 4 star_entries) [0, 1, 2, 3]
     = Inr (- 1,
         [Error ''post_chol_factorization_nnz(): Cholesky decomposition with reorder failed with code {}''
            NumericalIssue])"
    by code_simp
  with len failure_is_minus_one [OF len, of "modelled_backend always_fails"]
  show ?thesis by blast
qed

subsection \<open>Relabelling\<close>

text \<open>
  Claim C7. For a symmetric pattern and a permutation \<open>p\<close>, applying \<open>p\<close> to the pattern
  and running the backend route with the inverse of \<open>p\<close> gives the result of the backend
  route on the original pattern with the identity permutation (the count, or the failure,
  of the unpermuted matrix).
\<close>

theorem relabel_then_inverse:
  assumes "symmetric_pattern n es" and "is_permutation n p"
  shows "count_nnz_fillin_eigen (modelled_backend numeric) (eigen_pattern n (relabel p es))
           (inverse_permutation p)
         = count_nnz_fillin_eigen (modelled_backend numeric) (eigen_pattern n es) [0..<n] \<and>
         (\<exists>res log. count_nnz_fillin_eigen (modelled_backend numeric) (eigen_pattern n es) [0..<n]
             = Inr (res, log))"
proof -
  let ?A = "eigen_pattern n es" and ?B = "eigen_pattern n (relabel p es)"
  let ?q = "inverse_permutation p"
  have n: "e_rows ?A = n" "e_rows ?B = n" by (simp_all add: eigen_pattern_def)
  have "set (permuted_entries ?B ?q) = set (permuted_entries ?A [0..<n])"
    using relabelled_entries [OF assms] identity_entries [OF assms(1)] by simp
  then have same: "compress n (permuted_entries ?B ?q) = compress n (permuted_entries ?A [0..<n])"
    by (rule compress_cong)
  have lq: "length ?q = e_rows ?B" using permutation_facts(2) [OF assms(2)] by (simp add: n)
  have li: "length [0..<n] = e_rows ?A" by (simp add: n)
  have "count_nnz_fillin_eigen (modelled_backend numeric) ?B ?q
      = count_nnz_fillin_eigen (modelled_backend numeric) ?A [0..<n]"
    unfolding modelled_route [OF lq] modelled_route [OF li] n same ..
  moreover have "\<exists>res log. count_nnz_fillin_eigen (modelled_backend numeric) ?A [0..<n]
             = Inr (res, log)"
    unfolding modelled_route [OF li] by (simp add: Let_def)
  ultimately show ?thesis by blast
qed

theorem relabel_then_inverse_witness:
  "symmetric_pattern 4 star_entries \<and> is_permutation 4 [1, 2, 3, 0] \<and>
   inverse_permutation [1, 2, 3, 0] = [3, 0, 1, 2] \<and>
   count_nnz_fillin_eigen (modelled_backend always_succeeds)
     (eigen_pattern 4 (relabel [1, 2, 3, 0] star_entries)) [1, 2, 3, 0] = Inr (7, []) \<and>
   count_nnz_fillin_eigen (modelled_backend always_succeeds)
     (eigen_pattern 4 (relabel [1, 2, 3, 0] star_entries)) (inverse_permutation [1, 2, 3, 0])
   = count_nnz_fillin_eigen (modelled_backend always_succeeds) (eigen_pattern 4 star_entries) [0..<4] \<and>
   count_nnz_fillin_eigen (modelled_backend always_succeeds) (eigen_pattern 4 star_entries) [0..<4]
   = Inr (10, [])"
proof -
  have a: "symmetric_pattern 4 star_entries" by code_simp
  have b: "is_permutation 4 [1, 2, 3, 0]" by code_simp
  have c: "inverse_permutation [1, 2, 3, 0] = [3, 0, 1, 2]" by code_simp
  have d: "count_nnz_fillin_eigen (modelled_backend always_succeeds) (eigen_pattern 4 star_entries) [0..<4]
     = Inr (10, [])" by code_simp
  have e: "count_nnz_fillin_eigen (modelled_backend always_succeeds)
     (eigen_pattern 4 (relabel [1, 2, 3, 0] star_entries)) [1, 2, 3, 0] = Inr (7, [])" by code_simp
  from relabel_then_inverse [of 4 star_entries "[1, 2, 3, 0]" always_succeeds, OF a b] a b c d e
  show ?thesis by blast
qed

section \<open>Inputs are left unchanged\<close>

lemma cells_poke: "cells (poke a i v s) b = (if b = a then (cells s a)[i := v] else cells s b)"
  by (simp add: poke_def)

lemma nnz_cell_poke: "nnz_cell (poke a i v s) = nnz_cell s"
  by (simp add: poke_def)

lemma visit_corresponds:
  assumes "agrees s w"
  shows "agrees (visit_mem r c s) (visit r c w)" and "same_matrix s (visit_mem r c s)"
  using assms
  by (simp_all add: agrees_def same_matrix_def visit_mem_def visit_def set_parent_def Let_def
      cells_poke nnz_cell_poke)

lemma same_matrix_trans: "same_matrix a b \<Longrightarrow> same_matrix b c \<Longrightarrow> same_matrix a c"
  by (simp add: same_matrix_def)

lemma same_matrix_refl: "same_matrix a a"
  by (simp add: same_matrix_def)

lemma corresponds_frame:
  "same_matrix s0 s1 \<Longrightarrow> corresponds s1 x y \<Longrightarrow> corresponds s0 x y"
  by (cases x; cases y) (auto intro: same_matrix_trans)

lemma walk_corresponds:
  "agrees s w \<Longrightarrow> corresponds s (walk_mem r c s) (walk r c w)"
proof (induction r c s arbitrary: w rule: walk_mem.induct)
  case (1 r c s)
  from "1.prems" have ib: "in_bounds_mem s c = in_bounds w c"
    by (simp add: in_bounds_mem_def in_bounds_def agrees_def)
  from "1.prems" have tg: "cells s Tags ! nat c = tags w ! nat c"
    by (simp add: agrees_def)
  show ?case
  proof (cases "in_bounds w c")
    case False
    with ib show ?thesis by (simp add: walk_mem.simps [of r c s] walk.simps [of r c w])
  next
    case inb: True
    show ?thesis
    proof (cases "tags w ! nat c = r")
      case True
      with inb ib tg "1.prems" show ?thesis
        by (simp add: walk_mem.simps [of r c s] walk.simps [of r c w] same_matrix_refl)
    next
      case False
      let ?s = "visit_mem r (nat c) s" and ?w = "visit r (nat c) w"
      note v = visit_corresponds [OF "1.prems", of r "nat c"]
      from v(1) have p: "cells ?s Parent ! nat c = parent ?w ! nat c" by (simp add: agrees_def)
      from inb ib False tg have "corresponds ?s (walk_mem r (cells ?s Parent ! nat c) ?s)
          (walk r (cells ?s Parent ! nat c) ?w)"
        by (intro "1.IH" v(1)) simp_all
      then have "corresponds s (walk_mem r (cells ?s Parent ! nat c) ?s)
          (walk r (parent ?w ! nat c) ?w)"
        unfolding p by (rule corresponds_frame [OF v(2)])
      with inb ib False tg show ?thesis
        by (simp add: walk_mem.simps [of r c s] walk.simps [of r c w])
    qed
  qed
qed

lemma iterate_corresponds:
  assumes "\<And>x s w. x \<in> set xs \<Longrightarrow> agrees s w \<Longrightarrow> same_matrix s0 s \<Longrightarrow> corresponds s (f x s) (g x w)"
  shows "agrees s w \<Longrightarrow> same_matrix s0 s \<Longrightarrow> corresponds s0 (iterate f xs s) (iterate g xs w)"
  using assms
proof (induction xs arbitrary: s w)
  case Nil
  then show ?case by simp
next
  case (Cons x xs)
  have step: "corresponds s (f x s) (g x w)"
    by (rule Cons.prems(3)) (use Cons.prems(1,2) in simp_all)
  show ?case
  proof (cases "f x s")
    case (Inl e)
    with step show ?thesis by (cases "g x w") simp_all
  next
    case (Inr s1)
    with step obtain w1 where w1: "g x w = Inr w1" "agrees s1 w1" "same_matrix s s1"
      by (cases "g x w") simp_all
    from Cons.prems(2) w1(3) have "same_matrix s0 s1" by (rule same_matrix_trans)
    with w1(2) have "corresponds s0 (iterate f xs s1) (iterate g xs w1)"
      by (rule Cons.IH) (use Cons.prems(3) in simp_all)
    with Inr w1(1) show ?thesis by simp
  qed
qed

lemma scan_entry_corresponds:
  assumes "agrees s w" and "same_matrix s0 s"
  shows "corresponds s (scan_entry_mem r i s) (scan_entry (matrix_in n s0) r i w)"
proof -
  from assms(2) have c: "col_idx (matrix_in n s0) = cells s ColIdx"
    by (simp add: matrix_in_def same_matrix_def)
  show ?thesis
  proof (cases "fetch (cells s ColIdx) i")
    case (Inl e)
    then show ?thesis by (simp add: scan_entry_mem_def scan_entry_def c)
  next
    case (Inr x)
    with walk_corresponds [OF assms(1), of r x] assms(1) show ?thesis
      by (simp add: scan_entry_mem_def scan_entry_def c same_matrix_refl)
  qed
qed

lemma begin_row_corresponds:
  assumes "agrees s w"
  shows "agrees (begin_row_mem r s) (begin_row r w)" and "same_matrix s (begin_row_mem r s)"
  using assms
  by (simp_all add: agrees_def same_matrix_def begin_row_mem_def begin_row_def
      cells_poke nnz_cell_poke)

lemma process_row_corresponds:
  assumes "agrees s w" and "same_matrix s0 s"
  shows "corresponds s0 (process_row_mem r s) (process_row (matrix_in n s0) r w)"
proof -
  let ?s1 = "begin_row_mem r s" and ?w1 = "begin_row r w"
  note b = begin_row_corresponds [OF assms(1), of r]
  from assms(2) b(2) have sm: "same_matrix s0 ?s1" by (rule same_matrix_trans)
  then have rp: "row_ptr (matrix_in n s0) = cells ?s1 RowPtr"
    by (simp add: matrix_in_def same_matrix_def)
  have it: "corresponds s0 (iterate (scan_entry_mem (int r)) xs ?s1)
      (iterate (scan_entry (matrix_in n s0) (int r)) xs ?w1)" for xs
    by (rule iterate_corresponds [OF _ b(1) sm]) (rule scan_entry_corresponds)
  show ?thesis
    unfolding process_row_mem_def process_row_def Let_def rp
    by (simp add: it split: sum.splits)
qed

lemma rows_corresponds:
  "corresponds s (iterate process_row_mem [0..<k] (allocate n s)) (rows_done (matrix_in n s) k)"
proof -
  have a: "agrees (allocate n s) (initial n)"
    by (simp add: agrees_def allocate_def initial_def)
  have m: "same_matrix s (allocate n s)"
    by (simp add: same_matrix_def allocate_def)
  have r: "rows (matrix_in n s) = n" by (simp add: matrix_in_def)
  have step: "corresponds t (process_row_mem x t) (process_row (matrix_in n s) x w)"
    if "agrees t w" and "same_matrix s t" for x t w
  proof -
    from that(2) have "matrix_in n s = matrix_in n t"
      by (simp add: matrix_in_def same_matrix_def)
    with process_row_corresponds [OF that(1) same_matrix_refl, of x n] show ?thesis by simp
  qed
  show ?thesis
    unfolding rows_done_def r
    by (rule iterate_corresponds [OF _ a m]) (rule step)
qed

text \<open>
  Claim C9. Neither routine changes its inputs. A call of the symbolic routine that
  returns leaves the two arrays of the matrix in the store as they were (its writes go to
  the three arrays it allocates), and returns what the routine returns on that matrix; on
  a valid matrix the call does return. A call of the backend routine that returns leaves
  the caller's matrix and permutation vector as they were, and returns what the routine
  returns on them; with a permutation vector of the right length the call does return.
\<close>

theorem inputs_unchanged:
  "(count_nnz_fillin_mem n s = Inr (res, s') \<longrightarrow>
      cells s' RowPtr = cells s RowPtr \<and> cells s' ColIdx = cells s ColIdx \<and>
      count_nnz_fillin (matrix_in n s) = Inr res) \<and>
   (valid_csr (matrix_in n s) \<longrightarrow> (\<exists>res s'. count_nnz_fillin_mem n s = Inr (res, s'))) \<and>
   (count_nnz_fillin_eigen_scope lib sc = Inr (out, sc') \<longrightarrow>
      eigen_mat_ref sc' = eigen_mat_ref sc \<and> h_permute_ref sc' = h_permute_ref sc \<and>
      count_nnz_fillin_eigen lib (eigen_mat_ref sc) (h_permute_ref sc) = Inr out) \<and>
   (length (h_permute_ref sc) = e_rows (eigen_mat_ref sc) \<longrightarrow>
      (\<exists>out sc'. count_nnz_fillin_eigen_scope lib sc = Inr (out, sc')))"
proof (intro conjI impI)
  assume a: "count_nnz_fillin_mem n s = Inr (res, s')"
  then have it: "iterate process_row_mem [0..<n] (allocate n s) = Inr s'"
    and res: "res = 2 * nnz_cell s' + int n"
    by (auto simp: count_nnz_fillin_mem_def split: sum.splits)
  from rows_corresponds [of s n n] it obtain w
    where w: "rows_done (matrix_in n s) n = Inr w" "agrees s' w" "same_matrix s s'"
    by (cases "rows_done (matrix_in n s) n") simp_all
  from w(3) show "cells s' RowPtr = cells s RowPtr" "cells s' ColIdx = cells s ColIdx"
    by (simp_all add: same_matrix_def)
  have "rows (matrix_in n s) = n" by (simp add: matrix_in_def)
  with w(1,2) res show "count_nnz_fillin (matrix_in n s) = Inr res"
    by (simp add: count_nnz_fillin_def agrees_def)
next
  assume v: "valid_csr (matrix_in n s)"
  have n: "rows (matrix_in n s) = n" by (simp add: matrix_in_def)
  from rows_done_total [OF v, of n] n obtain w where "rows_done (matrix_in n s) n = Inr w"
    by auto
  with rows_corresponds [of s n n] obtain t
    where "iterate process_row_mem [0..<n] (allocate n s) = Inr t"
    by (cases "iterate process_row_mem [0..<n] (allocate n s)") simp_all
  then show "\<exists>res s'. count_nnz_fillin_mem n s = Inr (res, s')"
    by (simp add: count_nnz_fillin_mem_def)
next
  assume b: "count_nnz_fillin_eigen_scope lib sc = Inr (out, sc')"
  then show "eigen_mat_ref sc' = eigen_mat_ref sc"
    by (auto simp: count_nnz_fillin_eigen_scope_def Let_def split: if_splits)
  from b show "h_permute_ref sc' = h_permute_ref sc"
    by (auto simp: count_nnz_fillin_eigen_scope_def Let_def split: if_splits)
  from b show "count_nnz_fillin_eigen lib (eigen_mat_ref sc) (h_permute_ref sc) = Inr out"
    by (auto simp: count_nnz_fillin_eigen_scope_def count_nnz_fillin_eigen_def Let_def
        split: if_splits)
next
  assume "length (h_permute_ref sc) = e_rows (eigen_mat_ref sc)"
  then show "\<exists>out sc'. count_nnz_fillin_eigen_scope lib sc = Inr (out, sc')"
    by (simp add: count_nnz_fillin_eigen_scope_def Let_def)
qed

theorem inputs_unchanged_witness:
  "valid_csr (matrix_in 4 star_memory) \<and>
   length (h_permute_ref star_scope) = e_rows (eigen_mat_ref star_scope) \<and>
   (\<exists>s' sc'.
     count_nnz_fillin_mem 4 star_memory = Inr (16, s') \<and>
     cells s' RowPtr = cells star_memory RowPtr \<and> cells s' ColIdx = cells star_memory ColIdx \<and>
     count_nnz_fillin (matrix_in 4 star_memory) = Inr 16 \<and>
     count_nnz_fillin_eigen_scope (modelled_backend always_succeeds) star_scope = Inr ((7, []), sc') \<and>
     eigen_mat_ref sc' = eigen_mat_ref star_scope \<and> h_permute_ref sc' = h_permute_ref star_scope \<and>
     count_nnz_fillin_eigen (modelled_backend always_succeeds)
       (eigen_mat_ref star_scope) (h_permute_ref star_scope) = Inr (7, []))"
proof -
  have v: "valid_csr (matrix_in 4 star_memory)"
    by (simp add: valid_csr_def matrix_in_def star_memory_def star4_def)
  have l: "length (h_permute_ref star_scope) = e_rows (eigen_mat_ref star_scope)"
    by (simp add: star_scope_def eigen_pattern_def)
  have "map_sum id fst (count_nnz_fillin_mem 4 star_memory) = Inr 16"
    by code_simp
  then obtain s' where a: "count_nnz_fillin_mem 4 star_memory = Inr (16, s')"
    by (cases "count_nnz_fillin_mem 4 star_memory") auto
  have "map_sum id fst (count_nnz_fillin_eigen_scope (modelled_backend always_succeeds) star_scope)
      = Inr (7, [])"
    by code_simp
  then obtain sc'
    where b: "count_nnz_fillin_eigen_scope (modelled_backend always_succeeds) star_scope
        = Inr ((7, []), sc')"
    by (cases "count_nnz_fillin_eigen_scope (modelled_backend always_succeeds) star_scope") auto
  from inputs_unchanged
    [of 4 star_memory 16 s' "modelled_backend always_succeeds" star_scope "(7, [])" sc'] a b v l
  show ?thesis by blast
qed

section \<open>The order of the stored entries does not matter\<close>

lemma path_up_trans:
  assumes "u \<in> path_up F v" and "v \<in> path_up F c"
  shows "u \<in> path_up F c"
  using assms by (induction rule: path_up.induct) (auto intro: path_up.intros)

lemma path_up_unfold:
  "path_up F c = insert c (if F ! c = - 1 then {} else path_up F (nat (F ! c)))"
proof (rule set_eqI, rule iffI)
  fix u assume "u \<in> path_up F c"
  then show "u \<in> insert c (if F ! c = - 1 then {} else path_up F (nat (F ! c)))"
  proof (induction rule: path_up.induct)
    case start
    then show ?case by simp
  next
    case (climb v)
    show ?case
    proof (cases "v = c")
      case True
      with climb.hyps(2) show ?thesis by (simp add: path_up.start)
    next
      case False
      with climb.IH have "F ! c \<noteq> - 1" and "v \<in> path_up F (nat (F ! c))"
        by (auto split: if_splits)
      with climb.hyps(2) show ?thesis by (simp add: path_up.climb)
    qed
  qed
next
  fix u assume u: "u \<in> insert c (if F ! c = - 1 then {} else path_up F (nat (F ! c)))"
  show "u \<in> path_up F c"
  proof (cases "u = c")
    case True
    then show ?thesis by (simp add: path_up.start)
  next
    case False
    with u have n: "F ! c \<noteq> - 1" and m: "u \<in> path_up F (nat (F ! c))"
      by (auto split: if_splits)
    from n have "nat (F ! c) \<in> path_up F c"
      by (intro path_up.climb path_up.start)
    with m show ?thesis by (rule path_up_trans)
  qed
qed

lemma path_up_below:
  assumes "row_start n r w0" and "c < r"
  shows "path_up (parent w0) c \<subseteq> {..<r}"
proof
  fix u assume "u \<in> path_up (parent w0) c"
  then have "u < r"
  proof (induction rule: path_up.induct)
    case start
    from assms(2) show ?case .
  next
    case (climb v)
    with assms(1) show ?case by (auto simp: row_start_def)
  qed
  then show "u \<in> {..<r}" by simp
qed

lemma stamped_visit:
  assumes "stamped w0 r M w" and "row_start n r w0" and "c < r" and "c \<notin> M" and "finite M"
  shows "stamped w0 r (insert c M) (visit (int r) c w)"
proof -
  from assms(2,3) have len0: "length (parent w0) = n" "length (tags w0) = n"
    "length (nonZerosPerCol w0) = n" "c < n"
    by (auto simp: row_start_def sized_def)
  from assms(1) len0 have len: "length (parent w) = n" "length (tags w) = n"
    "length (nonZerosPerCol w) = n"
    by (simp_all add: stamped_def)
  from assms(1,4) len0 have pc: "parent w ! c = parent w0 ! c"
    by (simp add: stamped_def)
  have P: "parent (visit (int r) c w) ! v
      = (if v \<in> insert c M \<and> parent w0 ! v = - 1 then int r else parent w0 ! v)"
    if "v < n" for v
  proof (cases "v = c")
    case True
    with pc len len0 show ?thesis by (simp add: parent_visit)
  next
    case False
    with assms(1) that len len0 show ?thesis
      by (simp add: parent_visit stamped_def)
  qed
  have T: "tags (visit (int r) c w) ! v = (if v \<in> insert c M then int r else tags w0 ! v)"
    if "v < n" for v
    using assms(1) that len len0 by (simp add: tags_visit stamped_def nth_list_update)
  have nz: "nonZerosPerCol (visit (int r) c w)
      = (nonZerosPerCol w)[c := nonZerosPerCol w ! c + 1]"
    by (simp add: visit_def set_parent_def Let_def)
  have N: "nonZerosPerCol (visit (int r) c w) ! v
      = nonZerosPerCol w0 ! v + (if v \<in> insert c M then 1 else 0)"
    if "v < n" for v
    using assms(1,4) that len len0 by (auto simp: nz stamped_def nth_list_update)
  have "nnz (visit (int r) c w) = nnz w + 1"
    by (simp add: visit_def set_parent_def Let_def)
  with assms(1,4,5) have C: "nnz (visit (int r) c w) = nnz w0 + int (card (insert c M))"
    by (simp add: stamped_def)
  have L: "length (parent (visit (int r) c w)) = n" "length (tags (visit (int r) c w)) = n"
    "length (nonZerosPerCol (visit (int r) c w)) = n"
    using len sized_visit [of n w "int r" c] by (simp_all add: sized_def)
  show ?thesis
    unfolding stamped_def using P T N C L len0 by simp
qed

lemma walk_stamps:
  assumes rs: "row_start n r' w0"
  shows "stamped w0 r' M w \<Longrightarrow> M \<subseteq> {..<r'} \<Longrightarrow> closed_from (parent w0) (nat c) M \<Longrightarrow>
     r = int r' \<Longrightarrow> 0 \<le> c \<Longrightarrow> c \<le> r \<Longrightarrow>
     \<exists>w'. walk r c w = Inr w' \<and>
       stamped w0 r' (M \<union> (if c < r then path_up (parent w0) (nat c) else {})) w'"
proof (induction r c w arbitrary: M rule: walk.induct)
  case (1 r c w)
  let ?F = "parent w0"
  from rs have len0: "length (parent w0) = n" "length (tags w0) = n"
    "length (nonZerosPerCol w0) = n" "r' < n"
    by (auto simp: row_start_def sized_def)
  from "1.prems"(1) len0 have len: "length (parent w) = n" "length (tags w) = n"
    "length (nonZerosPerCol w) = n"
    by (simp_all add: stamped_def)
  from "1.prems"(4,5,6) len0 have cn: "nat c < n" "nat c \<le> r'" by simp_all
  with len "1.prems"(5) have inb: "in_bounds w c" by (simp add: in_bounds_def)
  from "1.prems"(1) cn len0
  have tg: "tags w ! nat c = (if nat c \<in> M then int r' else tags w0 ! nat c)"
    by (simp add: stamped_def)
  have fin: "finite M" using "1.prems"(2) by (rule finite_subset) simp
  show ?case
  proof (cases "c = r")
    case True
    with "1.prems"(2,4) have "nat c \<notin> M" by auto
    with tg True rs "1.prems"(4) have "tags w ! nat c = r" by (simp add: row_start_def)
    with inb have "walk r c w = Inr w" by (simp add: walk.simps [of r c w])
    with True "1.prems"(1) show ?thesis by simp
  next
    case False
    with "1.prems"(4,5,6) have lt: "nat c < r'" "c < r" by simp_all
    with rs have t0: "tags w0 ! nat c \<noteq> int r'" by (auto simp: row_start_def)
    show ?thesis
    proof (cases "nat c \<in> M")
      case True
      with "1.prems"(3) have "path_up ?F (nat c) \<subseteq> M" by (simp add: closed_from_def)
      then have "M \<union> path_up ?F (nat c) = M" by blast
      moreover from True tg "1.prems"(4) have "tags w ! nat c = r" by simp
      with inb have "walk r c w = Inr w"
        by (simp add: walk.simps [of r c w])
      ultimately show ?thesis using lt "1.prems"(1) by simp
    next
      case notin: False
      let ?w = "visit r (nat c) w"
      let ?c' = "parent ?w ! nat c"
      from notin tg t0 "1.prems"(4) have neq: "tags w ! nat c \<noteq> r" by simp
      have st: "stamped w0 r' (insert (nat c) M) ?w"
        unfolding "1.prems"(4) by (rule stamped_visit [OF "1.prems"(1) rs lt(1) notin fin])
      then have c': "?c' = (if ?F ! nat c = - 1 then int r' else ?F ! nat c)"
        using cn len0 by (simp add: stamped_def)
      from rs have "\<forall>v<r'. ?F ! v = - 1 \<or> (int v < ?F ! v \<and> ?F ! v < int r')"
        by (simp add: row_start_def)
      with lt(1) have "?F ! nat c = - 1 \<or> (int (nat c) < ?F ! nat c \<and> ?F ! nat c < int r')"
        by blast
      with "1.prems"(5) have Fc: "?F ! nat c = - 1 \<or> (c < ?F ! nat c \<and> ?F ! nat c < int r')"
        by simp
      have rng: "0 \<le> ?c'" "?c' \<le> r" "nat c < nat ?c'"
      proof -
        from Fc show "0 \<le> ?c'"
          unfolding c' using "1.prems"(5) by (cases "?F ! nat c = - 1") simp_all
        from Fc show "?c' \<le> r"
          unfolding c' using "1.prems"(4) by (cases "?F ! nat c = - 1") simp_all
        from Fc show "nat c < nat ?c'"
          unfolding c' using "1.prems"(5) lt(1) by (cases "?F ! nat c = - 1") simp_all
      qed
      have sub: "insert (nat c) M \<subseteq> {..<r'}" using "1.prems"(2) lt(1) by simp
      have cl: "closed_from ?F (nat ?c') (insert (nat c) M)"
        unfolding closed_from_def
      proof (intro ballI impI)
        fix v assume v: "v \<in> insert (nat c) M" "nat ?c' \<le> v"
        with rng(3) have "v \<in> M" "nat c \<le> v" by auto
        with "1.prems"(3) have "path_up ?F v \<subseteq> M" by (simp add: closed_from_def)
        then show "path_up ?F v \<subseteq> insert (nat c) M" by blast
      qed
      from inb have nn: "\<not> \<not> in_bounds w c" by simp
      from "1.IH" [OF nn neq st sub cl "1.prems"(4) rng(1,2)]
      obtain w' where w': "walk r ?c' ?w = Inr w'"
        "stamped w0 r' (insert (nat c) M \<union> (if ?c' < r then path_up ?F (nat ?c') else {})) w'"
        by blast
      have "insert (nat c) M \<union> (if ?c' < r then path_up ?F (nat ?c') else {})
          = M \<union> path_up ?F (nat c)"
      proof (cases "?F ! nat c = - 1")
        case True
        with c' "1.prems"(4) have "\<not> ?c' < r" by simp
        moreover from True have "path_up ?F (nat c) = {nat c}"
          by (subst path_up_unfold) simp
        ultimately show ?thesis by simp
      next
        case False
        with c' Fc "1.prems"(4) have "?c' < r" "?c' = ?F ! nat c" by simp_all
        moreover from False have "path_up ?F (nat c) = insert (nat c) (path_up ?F (nat (?F ! nat c)))"
          by (subst path_up_unfold) simp
        ultimately show ?thesis by simp
      qed
      moreover from inb neq w'(1) have "walk r c w = Inr w'"
        by (simp add: walk.simps [of r c w])
      ultimately show ?thesis using w'(2) lt(2) by simp
    qed
  qed
qed

lemma closed_from_path:
  assumes "closed_from F 0 M"
  shows "closed_from F k (M \<union> path_up F c)"
  unfolding closed_from_def
proof (intro ballI impI)
  fix v assume "v \<in> M \<union> path_up F c"
  then show "path_up F v \<subseteq> M \<union> path_up F c"
  proof
    assume "v \<in> M"
    with assms have "path_up F v \<subseteq> M" by (simp add: closed_from_def)
    then show ?thesis by blast
  next
    assume "v \<in> path_up F c"
    then have "path_up F v \<subseteq> path_up F c" by (blast intro: path_up_trans)
    then show ?thesis by blast
  qed
qed

lemma scan_stamps:
  assumes rs: "row_start n r w0"
    and nonneg: "\<forall>c\<in>set (col_idx mat). 0 \<le> c"
  shows "stamped w0 r M w \<Longrightarrow> M \<subseteq> {..<r} \<Longrightarrow> closed_from (parent w0) 0 M \<Longrightarrow>
     \<forall>i\<in>set is. 0 \<le> i \<and> i < int (length (col_idx mat)) \<Longrightarrow>
     \<exists>w'. iterate (scan_entry mat (int r)) is w = Inr w' \<and>
        stamped w0 r
          (M \<union> (\<Union>c\<in>{c \<in> (\<lambda>i. nat (col_idx mat ! nat i)) ` set is. c < r}. path_up (parent w0) c))
          w'"
proof (induction "is" arbitrary: M w)
  case Nil
  then show ?case by simp
next
  case (Cons i "is")
  let ?F = "parent w0"
  let ?col = "\<lambda>i. nat (col_idx mat ! nat i)"
  let ?c = "col_idx mat ! nat i"
  let ?rest = "\<Union>c\<in>{c \<in> ?col ` set is. c < r}. path_up ?F c"
  from Cons.prems(4) have ib: "0 \<le> i" "i < int (length (col_idx mat))"
    and ibs: "\<forall>i\<in>set is. 0 \<le> i \<and> i < int (length (col_idx mat))" by simp_all
  from ib have f: "fetch (col_idx mat) i = Inr ?c" by (simp add: fetch_def)
  from ib have "?c \<in> set (col_idx mat)" by simp
  with nonneg have c0: "0 \<le> ?c" by blast
  show ?case
  proof (cases "?c < int r")
    case True
    then have lt: "nat ?c < r" using c0 by simp
    from Cons.prems(3) have "closed_from ?F (nat ?c) M" by (simp add: closed_from_def)
    from walk_stamps [OF rs Cons.prems(1,2) this refl c0] True
    obtain w1 where w1: "walk (int r) ?c w = Inr w1" "stamped w0 r (M \<union> path_up ?F (nat ?c)) w1"
      by auto
    have sub: "M \<union> path_up ?F (nat ?c) \<subseteq> {..<r}"
      using Cons.prems(2) path_up_below [OF rs lt] by simp
    have cl: "closed_from ?F 0 (M \<union> path_up ?F (nat ?c))"
      by (rule closed_from_path [OF Cons.prems(3)])
    from Cons.IH [OF w1(2) sub cl ibs] obtain w'
      where w': "iterate (scan_entry mat (int r)) is w1 = Inr w'"
        "stamped w0 r (M \<union> path_up ?F (nat ?c) \<union> ?rest) w'" by blast
    have "M \<union> path_up ?F (nat ?c) \<union> ?rest
        = M \<union> (\<Union>c\<in>{c \<in> ?col ` set (i # is). c < r}. path_up ?F c)"
      using lt by auto
    with w'(2) have "stamped w0 r
        (M \<union> (\<Union>c\<in>{c \<in> ?col ` set (i # is). c < r}. path_up ?F c)) w'" by simp
    moreover from f True w1(1) w'(1) have "iterate (scan_entry mat (int r)) (i # is) w = Inr w'"
      by (simp add: scan_entry_def)
    ultimately show ?thesis by blast
  next
    case False
    then have ge: "\<not> nat ?c < r" using c0 by simp
    from Cons.IH [OF Cons.prems(1,2,3) ibs] obtain w'
      where w': "iterate (scan_entry mat (int r)) is w = Inr w'"
        "stamped w0 r (M \<union> ?rest) w'" by blast
    have "M \<union> ?rest = M \<union> (\<Union>c\<in>{c \<in> ?col ` set (i # is). c < r}. path_up ?F c)"
      using ge by auto
    with w'(2) have "stamped w0 r
        (M \<union> (\<Union>c\<in>{c \<in> ?col ` set (i # is). c < r}. path_up ?F c)) w'" by simp
    moreover from f False w'(1) have "iterate (scan_entry mat (int r)) (i # is) w = Inr w'"
      by (simp add: scan_entry_def)
    ultimately show ?thesis by blast
  qed
qed

lemma row_start_begin:
  assumes "between_rows n r w" and "r < n"
  shows "row_start n r (begin_row r w)"
proof -
  from assms have len: "length (parent w) = n" "length (tags w) = n" "length (nonZerosPerCol w) = n"
    by (auto simp: between_rows_def sized_def)
  from assms(1) have t: "\<forall>v<r. tags w ! v < int r"
    and p: "\<forall>v<r. parent w ! v = - 1 \<or> (int v < parent w ! v \<and> parent w ! v < int r)"
    by (auto simp: between_rows_def climbing_def)
  have "\<forall>v<r. tags (begin_row r w) ! v < int r"
    using t by (simp add: begin_row_def)
  moreover have "\<forall>v<r. parent (begin_row r w) ! v = - 1 \<or>
      (int v < parent (begin_row r w) ! v \<and> parent (begin_row r w) ! v < int r)"
    using p by (simp add: begin_row_def)
  ultimately show ?thesis
    using assms(2) len by (simp add: row_start_def sized_def begin_row_def)
qed

lemma process_row_stamps:
  assumes "valid_csr mat" and "r < rows mat" and "between_rows (rows mat) r w"
  shows "\<exists>w'. process_row mat r w = Inr w' \<and>
           stamped (begin_row r w) r
             (\<Union>c\<in>lower_cols mat r. path_up (parent (begin_row r w)) c) w'"
proof -
  let ?w0 = "begin_row r w"
  let ?is = "[row_ptr mat ! r..row_ptr mat ! Suc r - 1]"
  note rp = row_ptr_bounds [OF assms(1,2)]
  have rs: "row_start (rows mat) r ?w0" by (rule row_start_begin [OF assms(3,2)])
  have nonneg: "\<forall>c\<in>set (col_idx mat). 0 \<le> c" using assms(1) by (simp add: valid_csr_def)
  have ib: "\<forall>i\<in>set ?is. 0 \<le> i \<and> i < int (length (col_idx mat))"
    using rp(3,4) by auto
  have st: "stamped ?w0 r {} ?w0" by (simp add: stamped_def)
  have cl: "closed_from (parent ?w0) 0 {}" by (simp add: closed_from_def)
  from scan_stamps [OF rs nonneg st _ cl ib] obtain w'
    where w': "iterate (scan_entry mat (int r)) ?is ?w0 = Inr w'"
      "stamped ?w0 r
        ({} \<union> (\<Union>c\<in>{c \<in> (\<lambda>i. nat (col_idx mat ! nat i)) ` set ?is. c < r}.
            path_up (parent ?w0) c)) w'"
    by blast
  have "{c \<in> (\<lambda>i. nat (col_idx mat ! nat i)) ` set ?is. c < r} = lower_cols mat r"
    by (simp add: lower_cols_def row_cols_def)
  with w'(2) have "stamped ?w0 r (\<Union>c\<in>lower_cols mat r. path_up (parent ?w0) c) w'"
    by simp
  with w'(1) rp(1,2) show ?thesis by (simp add: process_row_def Let_def)
qed





lemma upto_as_upt: "[int a..int a + int l - 1] = map (\<lambda>t. int (a + t)) [0..<l]"
proof (induction l)
  case 0
  then show ?case by simp
next
  case (Suc l)
  have "[int a..int a + int (Suc l) - 1] = [int a..int a + int l - 1] @ [int a + int l]"
    using upto_rec2 [of "int a" "int a + int l"] by simp
  with Suc show ?case by simp
qed

lemma row_cols_compress:
  assumes "r < n"
  shows "row_cols (compress n es) r = filter (\<lambda>c. (r, c) \<in> set es) [0..<n]"
proof -
  define rws where "rws = map (\<lambda>r. filter (\<lambda>c. (r, c) \<in> set es) [0..<n]) [0..<n]"
  define a where "a = length (concat (take r rws))"
  define l where "l = length (rws ! r)"
  have lr: "length rws = n" by (simp add: rws_def)
  have c: "compress n es = \<lparr>rows = n,
      row_ptr = map (\<lambda>k. int (length (concat (take k rws)))) [0..<Suc n],
      col_idx = map int (concat rws)\<rparr>"
    by (simp add: compress_def rws_def Let_def del: upt_Suc)
  have split: "concat rws = concat (take r rws) @ rws ! r @ concat (drop (Suc r) rws)"
    using id_take_nth_drop [of r rws] assms lr by (metis concat.simps(2) concat_append)
  have p0: "row_ptr (compress n es) ! r = int a"
    using assms unfolding c a_def by (simp del: upt_Suc)
  have "take (Suc r) rws = take r rws @ [rws ! r]"
    using assms lr by (simp add: take_Suc_conv_app_nth)
  then have p1: "row_ptr (compress n es) ! Suc r = int a + int l"
    using assms unfolding c a_def l_def by (simp del: upt_Suc)
  have nth: "nat (map int (concat rws) ! (a + t)) = rws ! r ! t" if "t < l" for t
  proof -
    from that have "a + t < length (concat rws)"
      unfolding split a_def l_def by simp
    moreover from that have "concat rws ! (a + t) = rws ! r ! t"
      unfolding split a_def l_def by (simp add: nth_append)
    ultimately show ?thesis by simp
  qed
  have "row_cols (compress n es) r
      = map (\<lambda>i. nat (map int (concat rws) ! nat i)) [int a..int a + int l - 1]"
    unfolding row_cols_def p0 p1 by (simp add: c)
  also have "\<dots> = map (\<lambda>t. nat (map int (concat rws) ! (a + t))) [0..<l]"
  proof -
    have "nat (int a + int t) = a + t" for t by linarith
    then show ?thesis unfolding upto_as_upt by (simp add: comp_def)
  qed
  also have "\<dots> = map (\<lambda>t. rws ! r ! t) [0..<l]"
    by (rule map_cong) (simp_all add: nth)
  also have "\<dots> = rws ! r" unfolding l_def by (rule map_nth)
  also have "\<dots> = filter (\<lambda>c. (r, c) \<in> set es) [0..<n]"
    using assms by (simp add: rws_def)
  finally show ?thesis .
qed



section \<open>The 32-bit routine returns the exact count reduced to 32 bits\<close>

lemma int32_id: "- (2 ^ 31) \<le> x \<Longrightarrow> x < 2 ^ 31 \<Longrightarrow> int32 x = x"
  by (simp add: int32_def)

lemma int32_plus: "int32 (int32 x + y) = int32 (x + y)"
proof -
  have "int32 x + y + 2 ^ 31 = (x + 2 ^ 31) mod 2 ^ 32 + y"
    by (simp add: int32_def)
  then have "(int32 x + y + 2 ^ 31) mod 2 ^ 32 = ((x + 2 ^ 31) mod 2 ^ 32 + y) mod 2 ^ 32"
    by (rule arg_cong)
  also have "\<dots> = (x + 2 ^ 31 + y) mod 2 ^ 32" by (rule mod_add_left_eq)
  also have "x + 2 ^ 31 + y = x + y + 2 ^ 31" by (simp only: add.assoc add.commute [of "2 ^ 31" y])
  finally show ?thesis unfolding int32_def by (rule arg_cong)
qed

lemma int32_succ: "int32 (int32 x + 1) = int32 (x + 1)"
  by (rule int32_plus)

lemma int32_double: "int32 (2 * int32 x) = int32 (2 * x)"
proof -
  have "2 * int32 x = int32 x + int32 x" by simp
  then have "int32 (2 * int32 x) = int32 (int32 x + int32 x)" by simp
  also have "\<dots> = int32 (x + int32 x)" by (rule int32_plus)
  also have "\<dots> = int32 (int32 x + x)" by (simp add: add.commute)
  also have "\<dots> = int32 (x + x)" by (rule int32_plus)
  finally show ?thesis by simp
qed

lemma int32_result: "int32 (int32 (2 * int32 x) + n) = int32 (2 * x + n)"
  by (simp add: int32_double int32_plus)

lemma int32_zero: "int32 0 = 0"
  by (simp add: int32_def)

lemma set_parent_reduced:
  assumes "reduced w v"
  shows "reduced (set_parent r c w) (set_parent r c v)"
  using assms by (simp add: reduced_def set_parent_def)

lemma visit_reduced:
  assumes "reduced w v" and "c < length (nonZerosPerCol w)"
  shows "reduced (visit r c w) (visit_int32 r c v)"
proof -
  let ?w1 = "set_parent r c w" and ?v1 = "set_parent r c v"
  from set_parent_reduced [OF assms(1)] have r1: "reduced ?w1 ?v1" .
  have len: "c < length (nonZerosPerCol ?w1)"
    using assms(2) by (simp add: set_parent_def)
  from r1 have nz: "nonZerosPerCol ?v1 = map int32 (nonZerosPerCol ?w1)"
    and n: "nnz ?v1 = int32 (nnz ?w1)"
    by (simp_all add: reduced_def)
  have "(nonZerosPerCol ?v1)[c := int32 (nonZerosPerCol ?v1 ! c + 1)]
      = map int32 ((nonZerosPerCol ?w1)[c := nonZerosPerCol ?w1 ! c + 1])"
    using len by (simp add: nz map_update int32_succ)
  moreover have "int32 (nnz ?v1 + 1) = int32 (nnz ?w1 + 1)"
    by (simp add: n int32_succ)
  ultimately show ?thesis
    using r1 by (simp add: reduced_def visit_def visit_int32_def Let_def)
qed

lemma walk_reduced:
  "reduced w v \<Longrightarrow> reduced_outcome (walk r c w) (walk_int32 r c v)"
proof (induction r c w arbitrary: v rule: walk.induct)
  case (1 r c w)
  from "1.prems" have ib: "in_bounds v c = in_bounds w c"
    by (simp add: in_bounds_def reduced_def)
  from "1.prems" have tg: "tags v ! nat c = tags w ! nat c"
    by (simp add: reduced_def)
  show ?case
  proof (cases "in_bounds w c")
    case False
    with ib show ?thesis by (simp add: walk.simps [of r c w] walk_int32.simps [of r c v])
  next
    case inb: True
    show ?thesis
    proof (cases "tags w ! nat c = r")
      case True
      with inb ib tg "1.prems" show ?thesis
        by (simp add: walk.simps [of r c w] walk_int32.simps [of r c v])
    next
      case False
      let ?w = "visit r (nat c) w" and ?v = "visit_int32 r (nat c) v"
      from inb have "nat c < length (nonZerosPerCol w)" by (auto simp: in_bounds_def)
      from visit_reduced [OF "1.prems" this] have rv: "reduced ?w ?v" .
      then have p: "parent ?v ! nat c = parent ?w ! nat c" by (simp add: reduced_def)
      from inb have nn: "\<not> \<not> in_bounds w c" by simp
      from "1.IH" [OF nn False rv]
      have "reduced_outcome (walk r (parent ?w ! nat c) ?w) (walk_int32 r (parent ?v ! nat c) ?v)"
        unfolding p .
      with inb ib False tg show ?thesis
        by (simp add: walk.simps [of r c w] walk_int32.simps [of r c v])
    qed
  qed
qed

lemma iterate_reduced:
  assumes "\<And>x w v. x \<in> set xs \<Longrightarrow> reduced w v \<Longrightarrow> reduced_outcome (f x w) (g x v)"
  shows "reduced w v \<Longrightarrow> reduced_outcome (iterate f xs w) (iterate g xs v)"
  using assms
proof (induction xs arbitrary: w v)
  case Nil
  then show ?case by simp
next
  case (Cons x xs)
  have step: "reduced_outcome (f x w) (g x v)"
    by (rule Cons.prems(2)) (use Cons.prems(1) in simp_all)
  show ?case
  proof (cases "f x w")
    case (Inl e)
    with step show ?thesis by (cases "g x v") simp_all
  next
    case (Inr w1)
    with step obtain v1 where v1: "g x v = Inr v1" "reduced w1 v1"
      by (cases "g x v") simp_all
    from v1(2) have "reduced_outcome (iterate f xs w1) (iterate g xs v1)"
      by (rule Cons.IH) (use Cons.prems(2) in simp_all)
    with Inr v1(1) show ?thesis by simp
  qed
qed

lemma scan_entry_reduced:
  assumes "reduced w v"
  shows "reduced_outcome (scan_entry mat r i w) (scan_entry_int32 mat r i v)"
proof (cases "fetch (col_idx mat) i")
  case (Inl e)
  then show ?thesis by (simp add: scan_entry_def scan_entry_int32_def)
next
  case (Inr c)
  with walk_reduced [OF assms, of r c] assms show ?thesis
    by (simp add: scan_entry_def scan_entry_int32_def)
qed

lemma begin_row_reduced:
  assumes "reduced w v"
  shows "reduced (begin_row r w) (begin_row r v)"
  using assms by (simp add: reduced_def begin_row_def map_update int32_zero)

lemma process_row_reduced:
  assumes "reduced w v"
  shows "reduced_outcome (process_row mat r w) (process_row_int32 mat r v)"
proof -
  have it: "reduced_outcome (iterate (scan_entry mat (int r)) xs (begin_row r w))
      (iterate (scan_entry_int32 mat (int r)) xs (begin_row r v))" for xs
    by (rule iterate_reduced [OF _ begin_row_reduced [OF assms]]) (rule scan_entry_reduced)
  show ?thesis
    unfolding process_row_def process_row_int32_def Let_def
    by (simp add: it split: sum.splits)
qed

lemma rows_done_reduced: "reduced_outcome (rows_done mat k) (rows_done_int32 mat k)"
proof -
  have "reduced (initial (rows mat)) (initial (rows mat))"
    by (simp add: reduced_def initial_def int32_zero)
  then show ?thesis
    unfolding rows_done_def rows_done_int32_def
    by (rule iterate_reduced [rotated]) (rule process_row_reduced)
qed

lemma count_nnz_fillin_int32_exact:
  "count_nnz_fillin_int32 mat =
     (case count_nnz_fillin mat of Inl e \<Rightarrow> Inl e | Inr s \<Rightarrow> Inr (int32 s))"
proof (cases "rows_done mat (rows mat)")
  case (Inl e)
  with rows_done_reduced [of mat "rows mat"] have "rows_done_int32 mat (rows mat) = Inl e"
    by (cases "rows_done_int32 mat (rows mat)") simp_all
  with Inl show ?thesis by (simp add: count_nnz_fillin_def count_nnz_fillin_int32_def)
next
  case (Inr w)
  with rows_done_reduced [of mat "rows mat"] obtain v
    where v: "rows_done_int32 mat (rows mat) = Inr v" "reduced w v"
    by (cases "rows_done_int32 mat (rows mat)") simp_all
  from v(2) have "nnz v = int32 (nnz w)" by (simp add: reduced_def)
  with Inr v(1) show ?thesis
    by (simp add: count_nnz_fillin_def count_nnz_fillin_int32_def int32_result)
qed

lemma count_nnz_fillin_int32_in_range:
  assumes "count_nnz_fillin mat = Inr s" and "0 \<le> s" and "s < 2 ^ 31"
  shows "count_nnz_fillin_int32 mat = Inr s"
  using assms by (simp add: count_nnz_fillin_int32_exact int32_id)

section \<open>The count of the star\<close>

lemma in_star_positions:
  "(r, c) \<in> set (star_positions n) \<longleftrightarrow>
     (r = 0 \<and> c < n) \<or> (1 \<le> r \<and> r < n \<and> (c = 0 \<or> c = r))"
  by (auto simp: star_positions_def)

lemma valid_star_pattern: "valid_csr (star_pattern n)"
  unfolding star_pattern_def by (rule valid_compress)

lemma rows_star_pattern: "rows (star_pattern n) = n"
  by (simp add: star_pattern_def rows_compress)

lemma set_row_cols_star:
  assumes "r < n"
  shows "set (row_cols (star_pattern n) r) = (if r = 0 then {..<n} else {0, r})"
  using assms by (auto simp: star_pattern_def row_cols_compress in_star_positions)

lemma lower_cols_star:
  assumes "r < n"
  shows "lower_cols (star_pattern n) r = (if r = 0 then {} else {0})"
  using assms by (auto simp: lower_cols_def set_row_cols_star)

lemma symmetric_star_pattern: "structurally_symmetric (star_pattern n)"
proof -
  have "(c, r) \<in> set (entries (star_pattern n))" if "(r, c) \<in> set (entries (star_pattern n))"
    for r c
  proof -
    from that have r: "r < n" and c: "c \<in> set (row_cols (star_pattern n) r)"
      by (simp_all add: set_entries rows_star_pattern)
    from c r have cn: "c < n" by (auto simp: set_row_cols_star split: if_splits)
    from c r have "r \<in> set (row_cols (star_pattern n) c)"
      by (auto simp: set_row_cols_star [OF r] set_row_cols_star [OF cn] split: if_splits)
    with cn show ?thesis by (simp add: set_entries rows_star_pattern)
  qed
  then show ?thesis by (auto simp: structurally_symmetric_def)
qed

lemma path_up_chain:
  assumes "\<forall>v. Suc v < r \<longrightarrow> F ! v = int (Suc v)" and "F ! (r - 1) = - 1"
  shows "c < r \<Longrightarrow> path_up F c = {c..<r}"
proof (induction "r - c" arbitrary: c)
  case 0
  then show ?case by simp
next
  case (Suc d)
  show ?case
  proof (cases "Suc c < r")
    case True
    with assms(1) have F: "F ! c = int (Suc c)" by simp
    from Suc.hyps(2) True have "d = r - Suc c" by simp
    from Suc.hyps(1) [OF this True] have "path_up F (Suc c) = {Suc c..<r}" .
    moreover have "nat (1 + int c) = Suc c" by simp
    then have "path_up F c = insert c (path_up F (Suc c))"
      by (subst path_up_unfold) (simp add: F)
    ultimately show ?thesis using True by auto
  next
    case False
    with Suc.prems have c: "c = r - 1" by simp
    with assms(2) have "F ! c = - 1" by simp
    then have "path_up F c = {c}" using path_up_unfold [of F c] by simp
    moreover from False Suc.prems have "r = Suc c" by simp
    then have "{c..<r} = {c}" by simp
    ultimately show ?thesis by simp
  qed
qed

lemma star_row:
  assumes "r < n" and "between_rows n r w" and "chain r w"
    and "process_row (star_pattern n) r w = Inr w'"
  shows "chain (Suc r) w' \<and> nnz w' = nnz w + int r"
proof -
  let ?w0 = "begin_row r w"
  let ?F = "parent ?w0"
  from assms(2) have len: "length (parent w) = n" by (simp add: between_rows_def sized_def)
  have F: "?F = (parent w)[r := - 1]" by (simp add: begin_row_def)
  have Fr: "?F ! r = - 1" using assms(1) len by (simp add: F)
  have Fv: "?F ! v = parent w ! v" if "v < r" for v using that by (simp add: F)
  have U: "(\<Union>c\<in>lower_cols (star_pattern n) r. path_up ?F c) = {..<r}"
  proof (cases "r = 0")
    case True
    with assms(1) have "lower_cols (star_pattern n) r = {}" by (simp add: lower_cols_star)
    then show ?thesis using True by simp
  next
    case False
    with assms(1) have lc: "lower_cols (star_pattern n) r = {0}" by (simp add: lower_cols_star)
    have "\<forall>v. Suc v < r \<longrightarrow> ?F ! v = int (Suc v)"
      using assms(3) by (simp add: chain_def Fv)
    moreover from False assms(3) have "?F ! (r - 1) = - 1" by (simp add: chain_def Fv)
    moreover from False have "0 < r" by simp
    ultimately have "path_up ?F 0 = {0..<r}" by (rule path_up_chain)
    then show ?thesis unfolding lc by (simp add: atLeast0LessThan)
  qed
  from assms(2) have b: "between_rows (rows (star_pattern n)) r w"
    by (simp add: rows_star_pattern)
  from assms(1) have r: "r < rows (star_pattern n)" by (simp add: rows_star_pattern)
  from process_row_stamps [OF valid_star_pattern r b] obtain w''
    where w'': "process_row (star_pattern n) r w = Inr w''"
      "stamped ?w0 r (\<Union>c\<in>lower_cols (star_pattern n) r. path_up ?F c) w''"
    by blast
  from w''(1) assms(4) have "w'' = w'" by simp
  with w''(2) have st: "stamped ?w0 r {..<r} w'" unfolding U by simp
  have len0: "length (parent ?w0) = n" using len by (simp add: begin_row_def)
  from st have "\<forall>v<length (parent ?w0).
      parent w' ! v = (if v \<in> {..<r} \<and> ?F ! v = - 1 then int r else ?F ! v)"
    unfolding stamped_def by blast
  then have P: "parent w' ! v = (if v < r \<and> ?F ! v = - 1 then int r else ?F ! v)"
    if "v < n" for v
    using that unfolding len0 by simp
  from st have N: "nnz w' = nnz ?w0 + int (card {..<r})" unfolding stamped_def by blast
  have "parent w' ! v = int (Suc v)" if "Suc v < Suc r" for v
  proof (cases "Suc v < r")
    case True
    with assms(3) have "?F ! v = int (Suc v)" by (simp add: chain_def Fv)
    with P [of v] True assms(1) show ?thesis by simp
  next
    case False
    with that have v: "v = r - 1" "0 < r" "v < r" by simp_all
    with assms(3) have "?F ! v = - 1" by (simp add: chain_def Fv)
    with P [of v] v assms(1) show ?thesis by simp
  qed
  moreover have "parent w' ! r = - 1" using P [OF assms(1)] Fr by simp
  ultimately have "chain (Suc r) w'" by (simp add: chain_def)
  moreover from N have "nnz w' = nnz w + int r"
    by (simp add: begin_row_def)
  ultimately show ?thesis by simp
qed

lemma star_rows:
  assumes "k \<le> n"
  shows "\<exists>w. rows_done (star_pattern n) k = Inr w \<and> between_rows n k w
           \<and> (chain k w \<and> 2 * nnz w = int (k * k) - int k)"
proof -
  from assms have k: "k \<le> rows (star_pattern n)" by (simp add: rows_star_pattern)
  have "\<exists>w. rows_done (star_pattern n) k = Inr w
      \<and> between_rows (rows (star_pattern n)) k w
      \<and> (chain k w \<and> 2 * nnz w = int (k * k) - int k)"
  proof (rule rows_done_invariant
      [where Q = "\<lambda>k w. chain k w \<and> 2 * nnz w = int (k * k) - int k",
        OF valid_star_pattern _ _ k])
    show "chain 0 (initial (rows (star_pattern n)))
        \<and> 2 * nnz (initial (rows (star_pattern n))) = int (0 * 0) - int 0"
      by (simp add: chain_def initial_def)
  next
    fix r w w'
    assume "r < rows (star_pattern n)" "between_rows (rows (star_pattern n)) r w"
      "chain r w \<and> 2 * nnz w = int (r * r) - int r"
      "process_row (star_pattern n) r w = Inr w'"
    then have "chain (Suc r) w' \<and> nnz w' = nnz w + int r" "2 * nnz w = int (r * r) - int r"
      using star_row [of r n w w'] by (simp_all add: rows_star_pattern)
    then show "chain (Suc r) w' \<and> 2 * nnz w' = int (Suc r * Suc r) - int (Suc r)"
      by (simp add: algebra_simps)
  qed
  then show ?thesis by (simp add: rows_star_pattern)
qed

lemma star_count:
  "\<exists>w. rows_done (star_pattern n) n = Inr w \<and> 2 * int (marks w) = int (n * n) - int n
       \<and> count_nnz_fillin (star_pattern n) = Inr (int (n * n))"
proof -
  from star_rows [OF order_refl, of n] obtain w
    where w: "rows_done (star_pattern n) n = Inr w" "2 * nnz w = int (n * n) - int n" by blast
  have "n \<le> rows (star_pattern n)" by (simp add: rows_star_pattern)
  from tallied_rows [OF valid_star_pattern this] w(1) have "nnz w = int (marks w)"
    by (simp add: tallied_def)
  with w show ?thesis by (simp add: count_nnz_fillin_def rows_star_pattern)
qed

lemma star_count_int32:
  "count_nnz_fillin_int32 (star_pattern n) = Inr (int32 (int (n * n)))"
  using star_count [of n] by (auto simp: count_nnz_fillin_int32_exact)

lemma star4_is_star_pattern: "star_pattern 4 = star4"
  by code_simp

section \<open>The returned value in 32 bits\<close>

subsection \<open>Dimensions for which no counter overflows\<close>

lemma small_dimension_int32:
  assumes "valid_csr mat" and "rows mat \<le> 46340"
  shows "count_nnz_fillin_int32 mat = count_nnz_fillin mat"
proof -
  from small_dimension_fits [OF assms] obtain res
    where "count_nnz_fillin mat = Inr res" "0 \<le> res" "res < 2 ^ 31" by blast
  then show ?thesis by (simp add: count_nnz_fillin_int32_in_range)
qed

lemma small_dimension_nnz:
  assumes "valid_csr mat" and "rows mat \<le> 46340"
  shows "\<exists>w v. rows_done mat (rows mat) = Inr w \<and> rows_done_int32 mat (rows mat) = Inr v \<and>
           parent v = parent w \<and> tags v = tags w \<and> history v = history w \<and> nnz v = nnz w"
proof -
  from nnz_range [OF assms(1) order_refl] obtain w
    where w: "rows_done mat (rows mat) = Inr w" "0 \<le> nnz w"
      "2 * nnz w \<le> int (rows mat * rows mat) - int (rows mat)" by blast
  from assms(2) assms(2) have "rows mat * rows mat \<le> 46340 * 46340" by (rule mult_le_mono)
  then have "int (rows mat * rows mat) \<le> 46340 * 46340" by linarith
  with w(2,3) have "int32 (nnz w) = nnz w" by (intro int32_id) simp_all
  moreover from rows_done_reduced [of mat "rows mat"] w(1) obtain v
    where "rows_done_int32 mat (rows mat) = Inr v" "reduced w v"
    by (cases "rows_done_int32 mat (rows mat)") simp_all
  ultimately show ?thesis using w(1) by (simp add: reduced_def)
qed

text \<open>
  For a valid compressed-row pattern of dimension \<open>n \<le> 46340\<close> the 32-bit routine returns
  \<open>2 * nnz + n\<close>, where \<open>nnz\<close> is the number of nodes marked during all walks of all rows.
\<close>

lemma small_twice_marks_plus_rows:
  assumes "valid_csr mat" and "rows mat \<le> 46340"
  shows "\<exists>v. rows_done_int32 mat (rows mat) = Inr v \<and> nnz v = int (marks v) \<and>
           count_nnz_fillin_int32 mat = Inr (2 * int (marks v) + int (rows mat))"
proof -
  from small_dimension_nnz [OF assms] obtain w v
    where wv: "rows_done mat (rows mat) = Inr w" "rows_done_int32 mat (rows mat) = Inr v"
      "history v = history w" "nnz v = nnz w" by blast
  from exact_twice_marks_plus_rows [OF assms(1)] wv(1)
  have "count_nnz_fillin mat = Inr (2 * nnz w + int (rows mat))" "nnz w = int (marks w)"
    by simp_all
  moreover from wv(3) have "marks v = marks w" by (simp add: marks_def)
  ultimately show ?thesis using wv(2,4) by (simp add: small_dimension_int32 [OF assms])
qed

text \<open>
  For a valid, structurally symmetric pattern of dimension \<open>n \<le> 46340\<close> with \<open>k\<close>
  structurally nonzero positions, the 32-bit routine returns at least \<open>k\<close>.
\<close>

lemma small_count_at_least_pattern:
  assumes "valid_csr mat" and "structurally_symmetric mat" and "rows mat \<le> 46340"
  shows "\<exists>res. count_nnz_fillin_int32 mat = Inr res \<and> int (structural_nonzeros mat) \<le> res"
  using exact_count_at_least_pattern [OF assms(1,2)]
  by (simp add: small_dimension_int32 [OF assms(1,3)])

subsection \<open>The star of dimension 46341\<close>

lemma in_star_entries:
  "(r, c) \<in> set (entries (star_pattern n)) \<longleftrightarrow>
     r < n \<and> (if r = 0 then c < n else c = 0 \<or> c = r)"
proof (cases "r < n")
  case True
  then show ?thesis by (auto simp: set_entries rows_star_pattern set_row_cols_star)
next
  case False
  then show ?thesis by (simp add: set_entries rows_star_pattern)
qed

lemma set_star_entries:
  "set (entries (star_pattern n))
     = Pair 0 ` {..<n} \<union> (\<lambda>r. (r, 0)) ` {1..<n} \<union> (\<lambda>r. (r, r)) ` {1..<n}"
proof (rule set_eqI)
  fix p :: "nat \<times> nat"
  obtain r c where p: "p = (r, c)" by (cases p)
  show "p \<in> set (entries (star_pattern n))
      \<longleftrightarrow> p \<in> Pair 0 ` {..<n} \<union> (\<lambda>r. (r, 0)) ` {1..<n} \<union> (\<lambda>r. (r, r)) ` {1..<n}"
    unfolding p in_star_entries by auto
qed

lemma structural_nonzeros_star: "structural_nonzeros (star_pattern n) = n + 2 * (n - 1)"
proof -
  let ?A = "Pair (0::nat) ` {..<n}"
  let ?B = "(\<lambda>r::nat. (r, 0::nat)) ` {1..<n}"
  let ?C = "(\<lambda>r::nat. (r, r)) ` {1..<n}"
  have a: "card ?A = n" by (simp add: card_image inj_on_def)
  have b: "card ?B = n - 1" by (simp add: card_image inj_on_def)
  have c: "card ?C = n - 1" by (simp add: card_image inj_on_def)
  have ab: "?A \<inter> ?B = {}" by auto
  have abc: "(?A \<union> ?B) \<inter> ?C = {}" by auto
  have "card (?A \<union> ?B) = card ?A + card ?B" using ab by (intro card_Un_disjoint) simp_all
  moreover have "card (?A \<union> ?B \<union> ?C) = card (?A \<union> ?B) + card ?C"
    using abc by (intro card_Un_disjoint) simp_all
  ultimately show ?thesis using a b c by (simp add: structural_nonzeros_def set_star_entries)
qed

lemma star_run_int32:
  "\<exists>v. rows_done_int32 (star_pattern n) n = Inr v \<and> 2 * int (marks v) = int (n * n) - int n
       \<and> nnz v = int32 (int (marks v))"
proof -
  from star_count [of n] obtain w
    where w: "rows_done (star_pattern n) n = Inr w" "2 * int (marks w) = int (n * n) - int n"
    by blast
  have "n \<le> rows (star_pattern n)" by (simp add: rows_star_pattern)
  from tallied_rows [OF valid_star_pattern this] w(1) have t: "nnz w = int (marks w)"
    by (simp add: tallied_def)
  from rows_done_reduced [of "star_pattern n" n] w(1) obtain v
    where v: "rows_done_int32 (star_pattern n) n = Inr v" "reduced w v"
    by (cases "rows_done_int32 (star_pattern n) n") simp_all
  from v(2) have "marks v = marks w" "nnz v = int32 (nnz w)" by (simp_all add: reduced_def marks_def)
  with v(1) w(2) t show ?thesis by simp
qed

text \<open>
  Claim C3 fails on the code. The star of dimension 46341 is a valid compressed-row matrix
  and structurally symmetric (lemmas \<open>valid_star_pattern\<close>, \<open>symmetric_star_pattern\<close>). The
  walks of its rows mark 1073720970 nodes, and \<open>nnz\<close> holds that number; twice that plus
  the dimension is 2147488281, which a 32-bit \<^verbatim>\<open>int\<close> does not hold: the routine returns
  -2147479015.
\<close>

theorem star_result_is_not_twice_marks_plus_rows:
  "\<exists>v. rows (star_pattern 46341) = 46341 \<and>
       rows_done_int32 (star_pattern 46341) 46341 = Inr v \<and>
       marks v = 1073720970 \<and> nnz v = 1073720970 \<and>
       2 * int (marks v) + int (rows (star_pattern 46341)) = 2147488281 \<and>
       count_nnz_fillin_int32 (star_pattern 46341) = Inr (- 2147479015)"
proof -
  from star_run_int32 [of 46341] obtain v
    where v: "rows_done_int32 (star_pattern 46341) 46341 = Inr v"
      "2 * int (marks v) = int (46341 * 46341) - int 46341" "nnz v = int32 (int (marks v))"
    by blast
  from v(2) have m: "marks v = 1073720970" by simp
  with v(3) have "nnz v = 1073720970" by (simp add: int32_def)
  moreover have "count_nnz_fillin_int32 (star_pattern 46341) = Inr (- 2147479015)"
    by (simp add: star_count_int32 int32_def)
  ultimately show ?thesis using v(1) m by (simp add: rows_star_pattern)
qed

text \<open>
  Claim C6 fails on the code. The star of dimension 46341 (valid and structurally
  symmetric, lemmas \<open>valid_star_pattern\<close> and \<open>symmetric_star_pattern\<close>) has 139021
  structurally nonzero positions, and the routine returns -2147479015 on it.
\<close>

theorem star_result_is_below_pattern:
  "\<exists>res. structural_nonzeros (star_pattern 46341) = 139021 \<and>
         count_nnz_fillin_int32 (star_pattern 46341) = Inr res \<and>
         res = - 2147479015 \<and> res < int (structural_nonzeros (star_pattern 46341))"
proof -
  have k: "structural_nonzeros (star_pattern 46341) = 139021"
    by (simp add: structural_nonzeros_star)
  have "int32 (int (46341 * 46341)) = - 2147479015" by (simp add: int32_def)
  then have "count_nnz_fillin_int32 (star_pattern 46341) = Inr (- 2147479015)"
    by (simp only: star_count_int32)
  with k show ?thesis by simp
qed

section \<open>The two routes compared\<close>










section \<open>What the 32-bit run shares with the exact run\<close>

text \<open>
  Indices, tags and parent pointers never depend on a counter: the 32-bit run returns
  where the exact run returns, with the same \<^verbatim>\<open>parent\<close> and \<^verbatim>\<open>tags\<close> arrays and the same
  stores, and it faults where the exact run faults.
\<close>

lemma rows_done_int32_same:
  assumes "rows_done mat k = Inr w"
  shows "\<exists>v. rows_done_int32 mat k = Inr v \<and> parent v = parent w \<and> tags v = tags w \<and>
           history v = history w \<and> nnz v = int32 (nnz w)"
proof -
  from rows_done_reduced [of mat k] assms obtain v
    where "rows_done_int32 mat k = Inr v" "reduced w v"
    by (cases "rows_done_int32 mat k") simp_all
  then show ?thesis by (simp add: reduced_def)
qed

lemma rows_done_int32_fault:
  "rows_done_int32 mat k = Inl e \<longleftrightarrow> rows_done mat k = Inl e"
  using rows_done_reduced [of mat k]
  by (cases "rows_done mat k"; cases "rows_done_int32 mat k") auto

lemma rows_done_int32_total:
  assumes "valid_csr mat" and "k \<le> rows mat"
  shows "\<exists>v. rows_done_int32 mat k = Inr v"
proof -
  from rows_done_total [OF assms] obtain w where "rows_done mat k = Inr w" by blast
  from rows_done_int32_same [OF this] show ?thesis by blast
qed

lemma count_nnz_fillin_int32_total:
  assumes "valid_csr mat"
  shows "\<exists>res. count_nnz_fillin_int32 mat = Inr res"
proof -
  from rows_done_int32_total [OF assms order_refl] obtain v
    where "rows_done_int32 mat (rows mat) = Inr v" by blast
  then show ?thesis by (simp add: count_nnz_fillin_int32_def)
qed

text \<open>On the diagonal pattern \<^verbatim>\<open>nnz\<close> stays 0 and the 32-bit routine returns the dimension.\<close>

lemma diagonal_count_int32:
  assumes "n < 2 ^ 31"
  shows "count_nnz_fillin_int32 (diagonal_pattern n) = Inr (int n)"
proof -
  from rows_done_diagonal [OF order_refl] obtain w
    where "rows_done (diagonal_pattern n) n = Inr w" "nnz w = 0" by blast
  moreover have "rows (diagonal_pattern n) = n" by (simp add: diagonal_pattern_def)
  ultimately have "count_nnz_fillin (diagonal_pattern n) = Inr (int n)"
    by (simp add: count_nnz_fillin_def)
  moreover from assms have "int n < int (2 ^ 31)" by (simp only: of_nat_less_iff)
  then have "int n < 2 ^ 31" by simp
  ultimately show ?thesis by (intro count_nnz_fillin_int32_in_range) simp_all
qed

end
